theory Spec2Isabelle
  imports Main "HOL-Library.Word" "HOL-Library.AList"
begin

section \<open>Data model\<close>

text \<open>
  Byte slices are lists of 8-bit words, Go strings are byte strings (\<open>string\<close>).
  A \<open>time.Time\<close> is the number of nanoseconds on the process's monotonic clock, an
  unbounded integer. A \<open>time.Duration\<close> is a number of nanoseconds held in an
  \<open>int64\<close>: it is kept as an integer, and the arithmetic the code does on durations
  wraps around as \<open>int64\<close> does (\<open>int64\<close> below).

  \<open>http.Header\<close> is \<open>map[string][]string\<close>. It is kept as an association list with
  one entry per key, so that the \<open>range\<close> loop over a header is a recursion over its
  entries. Header names are taken in their canonical form, as \<open>net/http\<close> stores them.
\<close>

type_synonym bytes = "8 word list"
type_synonym header = "(string \<times> string list) list"
type_synonym addr = nat

definition Get :: "header \<Rightarrow> string \<Rightarrow> string" where
  "Get h k = (case map_of h k of None \<Rightarrow> [] | Some [] \<Rightarrow> [] | Some (v # _) \<Rightarrow> v)"

definition Set :: "header \<Rightarrow> string \<Rightarrow> string \<Rightarrow> header" where
  "Set h k v = AList.update k [v] h"

definition Add :: "header \<Rightarrow> string \<Rightarrow> string \<Rightarrow> header" where
  "Add h k v = AList.update k ((case map_of h k of None \<Rightarrow> [] | Some vs \<Rightarrow> vs) @ [v]) h"

definition Del :: "header \<Rightarrow> string \<Rightarrow> header" where
  "Del h k = AList.delete k h"

definition HasPrefix :: "string \<Rightarrow> string \<Rightarrow> bool" where
  "HasPrefix s pre = (length pre \<le> length s \<and> take (length pre) s = pre)"

definition HasSuffix :: "string \<Rightarrow> string \<Rightarrow> bool" where
  "HasSuffix s suf = (length suf \<le> length s \<and> drop (length s - length suf) s = suf)"

text \<open>The slice expression \<open>s[i:j]\<close>.\<close>

definition substr :: "'a list \<Rightarrow> nat \<Rightarrow> nat \<Rightarrow> 'a list" where
  "substr s i j = take (j - i) (drop i s)"

definition dquote :: string where
  "dquote = [CHR 0x22]"

subsection \<open>Request bodies\<close>

text \<open>
  An \<open>io.ReadCloser\<close> is modelled by what its successive \<open>Read\<close> calls return: the
  bytes placed in the caller's buffer and the error, if any. Once the list is used up,
  \<open>Read\<close> returns no bytes and \<open>io.EOF\<close>.
\<close>

datatype ioerr = EOF | IOFailure string

type_synonym readres = "bytes \<times> ioerr option"

record reader =
  pending :: "readres list"
  closed :: bool

definition srcRead :: "reader \<Rightarrow> nat \<Rightarrow> readres \<times> reader" where
  "srcRead rd n = (case pending rd of
      [] \<Rightarrow> (([], Some EOF), rd)
    | x # xs \<Rightarrow> (x, rd\<lparr>pending := xs\<rparr>))"

definition srcClose :: "reader \<Rightarrow> reader" where
  "srcClose rd = rd\<lparr>closed := True\<rparr>"

text \<open>
  \<open>io.Copy(h, r.Body)\<close> into a hash: every chunk read is written to the hash, a chunk
  that comes with an error included; \<open>io.EOF\<close> ends the copy without an error, any
  other error is returned. The hash state is the list of the bytes written so far.
\<close>

fun ioCopy_loop :: "readres list \<Rightarrow> bytes \<Rightarrow> bytes \<times> ioerr option \<times> readres list" where
  "ioCopy_loop [] acc = (acc, None, [])"
| "ioCopy_loop ((d, None) # rest) acc = ioCopy_loop rest (acc @ d)"
| "ioCopy_loop ((d, Some e) # rest) acc = (acc @ d, (if e = EOF then None else Some e), rest)"

definition ioCopy :: "bytes \<Rightarrow> reader \<Rightarrow> bytes \<times> ioerr option \<times> reader" where
  "ioCopy h rd = (case ioCopy_loop (pending rd) h of
      (h', err, rest) \<Rightarrow> (h', err, rd\<lparr>pending := rest\<rparr>))"

subsection \<open>The Request Body Tap (bodyIntercept)\<close>

text \<open>
  The tap works for any source; \<open>rd\<close> is the source's \<open>Read\<close> and \<open>cl\<close> its
  \<open>Close\<close>. The field \<open>bi_sha256\<close> is the state of the \<open>hash.Hash\<close>: the bytes
  written to it. \<open>hashSum\<close> applies the digest function \<open>H\<close> (SHA-256, from the Go
  standard library, a parameter here) to them.
\<close>

record 'src bodyIntercept =
  source :: 'src
  bi_sha256 :: bytes

definition newBodyIntercept :: "'src \<Rightarrow> 'src bodyIntercept" where
  "newBodyIntercept src = \<lparr>source = src, bi_sha256 = []\<rparr>"

definition Read_bi ::
  "('src \<Rightarrow> nat \<Rightarrow> readres \<times> 'src) \<Rightarrow> 'src bodyIntercept \<Rightarrow> nat \<Rightarrow> readres \<times> 'src bodyIntercept" where
  "Read_bi rd bi n = (case rd (source bi) n of
      ((p, err), src') \<Rightarrow> ((p, err), bi\<lparr>source := src', bi_sha256 := bi_sha256 bi @ p\<rparr>))"

definition Close_bi :: "('src \<Rightarrow> 'src) \<Rightarrow> 'src bodyIntercept \<Rightarrow> 'src bodyIntercept" where
  "Close_bi cl bi = bi\<lparr>source := cl (source bi)\<rparr>"

definition hashSum :: "(bytes \<Rightarrow> bytes) \<Rightarrow> bytes \<Rightarrow> bytes" where
  "hashSum H written = H written"

text \<open>A sequence of \<open>Read\<close> calls with buffers of the given lengths, on the tap and on a bare source.\<close>

fun Reads_bi ::
  "('src \<Rightarrow> nat \<Rightarrow> readres \<times> 'src) \<Rightarrow> 'src bodyIntercept \<Rightarrow> nat list \<Rightarrow> readres list \<times> 'src bodyIntercept" where
  "Reads_bi rd bi [] = ([], bi)"
| "Reads_bi rd bi (n # ns) = (case Read_bi rd bi n of
      (res, bi') \<Rightarrow> (case Reads_bi rd bi' ns of (rs, bi'') \<Rightarrow> (res # rs, bi'')))"

fun Reads_src :: "('src \<Rightarrow> nat \<Rightarrow> readres \<times> 'src) \<Rightarrow> 'src \<Rightarrow> nat list \<Rightarrow> readres list \<times> 'src" where
  "Reads_src rd src [] = ([], src)"
| "Reads_src rd src (n # ns) = (case rd src n of
      (res, src') \<Rightarrow> (case Reads_src rd src' ns of (rs, src'') \<Rightarrow> (res # rs, src'')))"

subsection \<open>The Response Tap (responseWriterIntercept)\<close>

text \<open>
  The real \<open>http.ResponseWriter\<close> belongs to the server. It is modelled by its header
  map and by the calls of \<open>WriteHeader\<close> and \<open>Write\<close> it has received, in order.
\<close>

datatype wcall = WroteHeader int | WroteBody bytes

record responseWriter =
  hdr :: header
  wrote :: "wcall list"

definition WriteHeader_dest :: "responseWriter \<Rightarrow> int \<Rightarrow> responseWriter" where
  "WriteHeader_dest w c = w\<lparr>wrote := wrote w @ [WroteHeader c]\<rparr>"

definition Write_dest :: "responseWriter \<Rightarrow> bytes \<Rightarrow> responseWriter" where
  "Write_dest w d = w\<lparr>wrote := wrote w @ [WroteBody d]\<rparr>"

definition StatusOK :: int where
  "StatusOK = 200"

record responseWriterIntercept =
  dest :: responseWriter
  buf :: bytes
  rwi_statusCode :: int

definition newResponseWriterIntercept :: "responseWriter \<Rightarrow> responseWriterIntercept" where
  "newResponseWriterIntercept d = \<lparr>dest = d, buf = [], rwi_statusCode = StatusOK\<rparr>"

definition Header_rwi :: "responseWriterIntercept \<Rightarrow> header" where
  "Header_rwi rwi = hdr (dest rwi)"

definition Write_rwi :: "responseWriterIntercept \<Rightarrow> bytes \<Rightarrow> responseWriterIntercept" where
  "Write_rwi rwi d = rwi\<lparr>buf := buf rwi @ d, dest := Write_dest (dest rwi) d\<rparr>"

definition WriteHeader_rwi :: "responseWriterIntercept \<Rightarrow> int \<Rightarrow> responseWriterIntercept" where
  "WriteHeader_rwi rwi c = rwi\<lparr>rwi_statusCode := c, dest := WriteHeader_dest (dest rwi) c\<rparr>"

subsection \<open>Requests and the wrapped handler\<close>

record request =
  Method :: string
  URL :: string
  Header :: header
  Body :: reader

text \<open>
  The wrapped handler is opaque. What it does to the two interfaces it is given is a
  list of calls: reads and a close of the request body, changes of the header map that
  \<open>Header()\<close> returns, \<open>WriteHeader\<close> and \<open>Write\<close>. It then returns or panics. A
  handler is a function from its own state and the request to these calls, its outcome
  and its new state. It leaves the request itself as it is, apart from reading the
  body, as \<open>http.Handler\<close> asks of it.
\<close>

datatype action =
    BodyRead nat
  | BodyClose
  | HeaderSet string string
  | HeaderAdd string string
  | HeaderDel string
  | HeaderAssign string "string list"
  | CallWriteHeader int
  | CallWrite bytes

datatype outcome = Returned | Panicked

type_synonym 'h handlerfn = "'h \<Rightarrow> request \<Rightarrow> (action list \<times> outcome) \<times> 'h"

fun headerAction :: "action \<Rightarrow> header \<Rightarrow> header" where
  "headerAction (HeaderSet k v) h = Set h k v"
| "headerAction (HeaderAdd k v) h = Add h k v"
| "headerAction (HeaderDel k) h = Del h k"
| "headerAction (HeaderAssign k vs) h = AList.update k vs h"
| "headerAction _ h = h"

text \<open>The calls of a handler that was given the server's writer and the bare body.\<close>

fun rawStep :: "action \<Rightarrow> responseWriter \<times> reader \<Rightarrow> responseWriter \<times> reader" where
  "rawStep (BodyRead n) (w, b) = (w, snd (srcRead b n))"
| "rawStep BodyClose (w, b) = (w, srcClose b)"
| "rawStep (CallWriteHeader c) (w, b) = (WriteHeader_dest w c, b)"
| "rawStep (CallWrite d) (w, b) = (Write_dest w d, b)"
| "rawStep a (w, b) = (w\<lparr>hdr := headerAction a (hdr w)\<rparr>, b)"

definition runRaw :: "action list \<Rightarrow> responseWriter \<times> reader \<Rightarrow> responseWriter \<times> reader" where
  "runRaw acts st = fold rawStep acts st"

text \<open>What the handler's calls leave in the tap, read off the list of calls.\<close>

fun lastWriteHeader :: "action list \<Rightarrow> int option" where
  "lastWriteHeader [] = None"
| "lastWriteHeader (a # as) = (case lastWriteHeader as of
      Some c \<Rightarrow> Some c
    | None \<Rightarrow> (case a of CallWriteHeader c \<Rightarrow> Some c | _ \<Rightarrow> None))"

text \<open>The calls of a handler that was given the two taps.\<close>

fun tapStep ::
  "action \<Rightarrow> responseWriterIntercept \<times> reader bodyIntercept
     \<Rightarrow> responseWriterIntercept \<times> reader bodyIntercept" where
  "tapStep (BodyRead n) (rwi, bi) = (rwi, snd (Read_bi srcRead bi n))"
| "tapStep BodyClose (rwi, bi) = (rwi, Close_bi srcClose bi)"
| "tapStep (CallWriteHeader c) (rwi, bi) = (WriteHeader_rwi rwi c, bi)"
| "tapStep (CallWrite d) (rwi, bi) = (Write_rwi rwi d, bi)"
| "tapStep a (rwi, bi) = (rwi\<lparr>dest := (dest rwi)\<lparr>hdr := headerAction a (Header_rwi rwi)\<rparr>\<rparr>, bi)"

definition runTapped ::
  "action list \<Rightarrow> responseWriterIntercept \<times> reader bodyIntercept
     \<Rightarrow> responseWriterIntercept \<times> reader bodyIntercept" where
  "runTapped acts st = fold tapStep acts st"

subsection \<open>The dispatcher's state\<close>

text \<open>
  The \<open>savedResult\<close> objects live in a store: \<open>heap\<close> maps an address to the object
  there and \<open>nextAddr\<close> is the next address to allocate. A pointer is an address and
  \<open>nil\<close> is \<open>None\<close>. The fields of \<open>Potency\<close> are those of the struct, with the
  store and the state of the wrapped handler (\<open>hstate\<close>) beside them; the two mutexes
  are not modelled, each function that holds one being a single step. The field
  \<open>method\<close> and the function \<open>write\<close> are written \<open>method'\<close> and \<open>write'\<close>, the plain
  names being keywords of Isabelle.
\<close>

record savedResult =
  key :: string
  method' :: string
  url :: string
  requestHeader :: header
  sha256 :: bytes
  statusCode :: int
  responseHeader :: header
  responseBody :: bytes
  added :: int
  newer :: "addr option"

record 'h Potency =
  handler :: "'h handlerfn"
  hstate :: 'h
  lifetime :: int
  heap :: "addr \<Rightarrow> savedResult"
  nextAddr :: addr
  cache :: "string \<rightharpoonup> addr"
  cacheOldest :: "addr option"
  cacheNewest :: "addr option"
  inProgress :: "string \<rightharpoonup> bool"

datatype error =
    ErrInvalidKey string
  | ErrMethodMismatch string
  | ErrURLMismatch string
  | ErrHeaderMismatch string string
  | ErrHashBody ioerr
  | ErrBodyMismatch bytes bytes
  | ErrConflict string

text \<open>How a call ends: it returns \<open>nil\<close>, it returns an error, or it panics.\<close>

datatype ret = ReturnNil | ReturnErr error | GoPanic

definition criticalHeaders :: "string list" where
  "criticalHeaders = [''Accept'', ''Authorization'']"

text \<open>The zero value of the struct, which fresh memory holds.\<close>

definition zeroResult :: savedResult where
  "zeroResult = \<lparr>key = [], method' = [], url = [], requestHeader = [], sha256 = [],
     statusCode = 0, responseHeader = [], responseBody = [], added = 0, newer = None\<rparr>"

definition hour :: int where
  "hour = 3600 * 1000000000"

text \<open>The \<open>int64\<close> that an integer wraps to.\<close>

definition int64 :: "int \<Rightarrow> int" where
  "int64 x = (x + 2 ^ 63) mod 2 ^ 64 - 2 ^ 63"

definition NewPotency :: "'h handlerfn \<Rightarrow> 'h \<Rightarrow> 'h Potency" where
  "NewPotency hnd hs = \<lparr>handler = hnd, hstate = hs, lifetime = 6 * hour,
     heap = (\<lambda>_. zeroResult), nextAddr = 0, cache = Map.empty,
     cacheOldest = None, cacheNewest = None, inProgress = Map.empty\<rparr>"


definition lockKey :: "'h Potency \<Rightarrow> string \<Rightarrow> unit + 'h Potency" where
  "lockKey p k = (if inProgress p k = Some True then Inl ()
     else Inr (p\<lparr>inProgress := (inProgress p)(k \<mapsto> True)\<rparr>))"

definition unlockKey :: "'h Potency \<Rightarrow> string \<Rightarrow> 'h Potency" where
  "unlockKey p k = p\<lparr>inProgress := (inProgress p)(k := None)\<rparr>"

definition read :: "'h Potency \<Rightarrow> string \<Rightarrow> addr option" where
  "read p k = cache p k"

text \<open>
  The loop of \<open>removeExpired\<close>. It follows the \<open>newer\<close> links, so it need not end on
  a store whose links form a cycle: it is a partial function, \<open>None\<close> when it does
  not return.
\<close>

partial_function (option) removeExpired_loop ::
  "int \<Rightarrow> addr option \<Rightarrow> 'h Potency \<Rightarrow> 'h Potency option" where
  "removeExpired_loop cutoff iter p = (case iter of
      None \<Rightarrow> Some p
    | Some a \<Rightarrow>
        if added (heap p a) < cutoff
        then removeExpired_loop cutoff (newer (heap p a))
               (p\<lparr>cache := (cache p)(key (heap p a) := None), cacheOldest := Some a\<rparr>)
        else Some p)"

text \<open>
  \<open>cutoff := time.Now().Add(-1 * p.lifetime)\<close>. The product of the two \<open>int64\<close>
  values wraps around; \<open>Add\<close> then moves the clock reading by it.
\<close>

definition cutoff :: "'h Potency \<Rightarrow> int \<Rightarrow> int" where
  "cutoff p now = now + int64 ((- 1) * lifetime p)"

definition removeExpired :: "'h Potency \<Rightarrow> int \<Rightarrow> 'h Potency option" where
  "removeExpired p now = removeExpired_loop (cutoff p now) (cacheOldest p) p"

text \<open>
  \<open>write\<close> takes the pointer \<open>sr\<close> to the object to insert and the two readings of the
  clock it makes: \<open>now1\<close> for \<open>sr.added\<close> and \<open>now2\<close> in \<open>removeExpired\<close>.
\<close>

definition write' :: "'h Potency \<Rightarrow> addr \<Rightarrow> int \<Rightarrow> int \<Rightarrow> 'h Potency option" where
  "write' p sr now1 now2 =
    (let p1 = p\<lparr>heap := (heap p)(sr := (heap p sr)\<lparr>added := now1\<rparr>)\<rparr>;
         p2 = p1\<lparr>cache := (cache p1)(key (heap p1 sr) \<mapsto> sr)\<rparr>;
         p3 = (case cacheNewest p2 of
                 None \<Rightarrow> p2
               | Some n \<Rightarrow> p2\<lparr>heap := (heap p2)(n := (heap p2 n)\<lparr>newer := Some sr\<rparr>)\<rparr>);
         p4 = p3\<lparr>cacheNewest := Some sr\<rparr>;
         p5 = (if cacheOldest p4 = None then p4\<lparr>cacheOldest := Some sr\<rparr> else p4)
     in removeExpired p5 now2)"


subsection \<open>The dispatcher\<close>

text \<open>The loop over \<open>criticalHeaders\<close> on a hit: the first header that differs ends it.\<close>

fun checkHeaders :: "string list \<Rightarrow> header \<Rightarrow> header \<Rightarrow> error option" where
  "checkHeaders [] sh rh = None"
| "checkHeaders (h # hs) sh rh =
     (if Get sh h \<noteq> Get rh h then Some (ErrHeaderMismatch h (Get rh h))
      else checkHeaders hs sh rh)"

text \<open>
  The loop \<open>for key, vals := range saved.responseHeader\<close>, which sets \<open>vals[0]\<close>.
  Indexing an empty \<open>vals\<close> panics: \<open>Inl\<close> is the header map at the panic,
  \<open>Inr\<close> the header map after the loop.
\<close>

fun replayHeaders :: "header \<Rightarrow> header \<Rightarrow> header + header" where
  "replayHeaders [] wh = Inr wh"
| "replayHeaders ((k, vals) # rest) wh =
     (case vals of [] \<Rightarrow> Inl wh | v # _ \<Rightarrow> replayHeaders rest (Set wh k v))"

text \<open>
  A call of \<open>serveHTTP\<close> yields how it ended, the dispatcher's state, the server's
  writer and the request body as the call left them. \<open>H\<close> is SHA-256; \<open>now1\<close> and
  \<open>now2\<close> are the two clock readings of \<open>write\<close>. The branch taken on a hit comes
  first.
\<close>

definition serveHTTP_hit ::
  "(bytes \<Rightarrow> bytes) \<Rightarrow> 'h Potency \<Rightarrow> responseWriter \<Rightarrow> request \<Rightarrow> savedResult
     \<Rightarrow> ret \<times> 'h Potency \<times> responseWriter \<times> reader" where
  "serveHTTP_hit H p w r saved =
    (if Method r \<noteq> method' saved then (ReturnErr (ErrMethodMismatch (Method r)), p, w, Body r)
     else if URL r \<noteq> url saved then (ReturnErr (ErrURLMismatch (URL r)), p, w, Body r)
     else case checkHeaders criticalHeaders (requestHeader saved) (Header r) of
         Some e \<Rightarrow> (ReturnErr e, p, w, Body r)
       | None \<Rightarrow>
          (case ioCopy [] (Body r) of (h, err, body') \<Rightarrow>
            (case err of
                Some e \<Rightarrow> (ReturnErr (ErrHashBody e), p, w, body')
              | None \<Rightarrow>
                 if hashSum H h \<noteq> sha256 saved
                 then (ReturnErr (ErrBodyMismatch (hashSum H h) (sha256 saved)), p, w, body')
                 else (case replayHeaders (responseHeader saved) (hdr w) of
                     Inl wh \<Rightarrow> (GoPanic, p, w\<lparr>hdr := wh\<rparr>, body')
                   | Inr wh \<Rightarrow>
                       (ReturnNil, p,
                        Write_dest (WriteHeader_dest (w\<lparr>hdr := wh\<rparr>) (statusCode saved))
                          (responseBody saved),
                        body')))))"

text \<open>
  After a miss \<open>serveHTTP\<close> works on the dispatcher's shared state in four steps,
  between which other requests may take theirs: \<open>lockKey\<close> (a critical section of
  \<open>inProgressMu\<close>), the call of the handler between the two taps, \<open>write\<close> (a
  critical section of \<open>cacheMu\<close>) and the deferred \<open>unlockKey\<close>. A \<open>thread\<close> is
  a request at one of these points, with the local variables it still needs there:
  about to call \<open>lockKey\<close>; about to call the handler, the key locked and the
  \<open>defer\<close> in place; about to call \<open>write\<close> with the result it has assembled;
  about to run the deferred \<open>unlockKey\<close>, returning \<open>nil\<close> or panicking; and done.
  \<open>step\<close> is the next step of a thread on the shared state. The object \<open>save\<close>
  gets its address in the store when \<open>write\<close> publishes it; until then only its own
  request can reach it.
\<close>

datatype thread =
    AtLock responseWriter request string
  | AtHandler responseWriter request string
  | AtWrite responseWriter reader string savedResult
  | AtUnlock responseWriter reader string ret
  | Finished ret responseWriter reader

fun step ::
  "(bytes \<Rightarrow> bytes) \<Rightarrow> int \<Rightarrow> int \<Rightarrow> 'h Potency \<Rightarrow> thread \<Rightarrow> ('h Potency \<times> thread) option" where
  "step H now1 now2 p (AtLock w r k) =
     (case lockKey p k of
        Inl _ \<Rightarrow> Some (p, Finished (ReturnErr (ErrConflict k)) w (Body r))
      | Inr p1 \<Rightarrow> Some (p1, AtHandler w r k))"
| "step H now1 now2 p (AtHandler w r k) =
     (let reqHdr = fold (\<lambda>h rh. Set rh h (Get (Header r) h)) criticalHeaders [];
          bi = newBodyIntercept (Body r);
          rwi = newResponseWriterIntercept w
      in case handler p (hstate p) r of ((acts, out), hs') \<Rightarrow>
         (case runTapped acts (rwi, bi) of (rwi', bi') \<Rightarrow>
           (case out of
               Panicked \<Rightarrow> Some (p\<lparr>hstate := hs'\<rparr>, AtUnlock (dest rwi') (source bi') k GoPanic)
             | Returned \<Rightarrow>
                 Some (p\<lparr>hstate := hs'\<rparr>,
                       AtWrite (dest rwi') (source bi') k
                         \<lparr>key = k, method' = Method r, url = URL r, requestHeader = reqHdr,
                          sha256 = hashSum H (bi_sha256 bi'),
                          statusCode = rwi_statusCode rwi', responseHeader = Header_rwi rwi',
                          responseBody = buf rwi', added = 0, newer = None\<rparr>))))"
| "step H now1 now2 p (AtWrite w b k save) =
     (let sr = nextAddr p;
          p1 = p\<lparr>heap := (heap p)(sr := save), nextAddr := Suc sr\<rparr>
      in case write' p1 sr now1 now2 of
           None \<Rightarrow> None
         | Some p2 \<Rightarrow> Some (p2, AtUnlock w b k ReturnNil))"
| "step H now1 now2 p (AtUnlock w b k rt) = Some (unlockKey p k, Finished rt w b)"
| "step H now1 now2 p (Finished rt w b) = Some (p, Finished rt w b)"

text \<open>The number of steps a thread has before it at most.\<close>

fun stage :: "thread \<Rightarrow> nat" where
  "stage (AtLock w r k) = 4"
| "stage (AtHandler w r k) = 3"
| "stage (AtWrite w b k save) = 2"
| "stage (AtUnlock w b k rt) = 1"
| "stage (Finished rt w b) = 0"

text \<open>
  A thread run to its end with no step of another request in between, which is
  \<open>serveHTTP\<close> called on its own: from the call of the handler (\<open>serveHTTP_exec\<close>)
  and from the call of \<open>lockKey\<close> (\<open>serveHTTP_miss\<close>).
\<close>

function (sequential) finish ::
  "(bytes \<Rightarrow> bytes) \<Rightarrow> int \<Rightarrow> int \<Rightarrow> 'h Potency \<Rightarrow> thread
     \<Rightarrow> (ret \<times> 'h Potency \<times> responseWriter \<times> reader) option" where
  "finish H now1 now2 p (Finished rt w b) = Some (rt, p, w, b)"
| "finish H now1 now2 p t =
     (case step H now1 now2 p t of
        None \<Rightarrow> None
      | Some (p', t') \<Rightarrow> finish H now1 now2 p' t')"
  by pat_completeness auto
termination
  by (relation "measure (\<lambda>(H, now1, now2, p, t). stage t)")
     (auto simp: Let_def split: sum.splits prod.splits outcome.splits option.splits)

definition serveHTTP_exec ::
  "(bytes \<Rightarrow> bytes) \<Rightarrow> 'h Potency \<Rightarrow> responseWriter \<Rightarrow> request \<Rightarrow> string \<Rightarrow> int \<Rightarrow> int
     \<Rightarrow> (ret \<times> 'h Potency \<times> responseWriter \<times> reader) option" where
  "serveHTTP_exec H p w r k now1 now2 = finish H now1 now2 p (AtHandler w r k)"

definition serveHTTP_miss ::
  "(bytes \<Rightarrow> bytes) \<Rightarrow> 'h Potency \<Rightarrow> responseWriter \<Rightarrow> request \<Rightarrow> string \<Rightarrow> int \<Rightarrow> int
     \<Rightarrow> (ret \<times> 'h Potency \<times> responseWriter \<times> reader) option" where
  "serveHTTP_miss H p w r k now1 now2 = finish H now1 now2 p (AtLock w r k)"

definition serveHTTP ::
  "(bytes \<Rightarrow> bytes) \<Rightarrow> 'h Potency \<Rightarrow> responseWriter \<Rightarrow> request \<Rightarrow> string \<Rightarrow> int \<Rightarrow> int
     \<Rightarrow> (ret \<times> 'h Potency \<times> responseWriter \<times> reader) option" where
  "serveHTTP H p w r val now1 now2 =
    (if length val < 2 \<or> \<not> HasPrefix val dquote \<or> \<not> HasSuffix val dquote
     then Some (ReturnErr (ErrInvalidKey val), p, w, Body r)
     else (let k = substr val 1 (length val - 1)
           in case read p k of
                Some a \<Rightarrow> Some (serveHTTP_hit H p w r (heap p a))
              | None \<Rightarrow> serveHTTP_miss H p w r k now1 now2))"

text \<open>The call \<open>p.handler.ServeHTTP(w, r)\<close> on the server's writer and the request as it came.\<close>

definition callHandler ::
  "'h Potency \<Rightarrow> responseWriter \<Rightarrow> request \<Rightarrow> outcome \<times> 'h Potency \<times> responseWriter \<times> reader" where
  "callHandler p w r =
    (case handler p (hstate p) r of ((acts, out), hs') \<Rightarrow>
      (case runRaw acts (w, Body r) of (w', b') \<Rightarrow> (out, p\<lparr>hstate := hs'\<rparr>, w', b')))"

text \<open>
  \<open>ServeHTTP\<close> returns nothing: it returns or panics. \<open>WriteError\<close> is
  \<open>jsrest.WriteError\<close>, of another module, a parameter here.
\<close>

definition ServeHTTP ::
  "(bytes \<Rightarrow> bytes) \<Rightarrow> (responseWriter \<Rightarrow> error \<Rightarrow> responseWriter) \<Rightarrow> 'h Potency
     \<Rightarrow> responseWriter \<Rightarrow> request \<Rightarrow> int \<Rightarrow> int
     \<Rightarrow> (outcome \<times> 'h Potency \<times> responseWriter \<times> reader) option" where
  "ServeHTTP H WriteError p w r now1 now2 =
    (let val = Get (Header r) ''Idempotency-Key''
     in if val = []
        then Some (callHandler p w r)
        else (case serveHTTP H p w r val now1 now2 of
                None \<Rightarrow> None
              | Some (ReturnNil, p', w', b') \<Rightarrow> Some (Returned, p', w', b')
              | Some (ReturnErr e, p', w', b') \<Rightarrow> Some (Returned, p', WriteError w' e, b')
              | Some (GoPanic, p', w', b') \<Rightarrow> Some (Panicked, p', w', b')))"

subsection \<open>Requests side by side\<close>

text \<open>
  The requests being served at one time are a list of threads over the one shared
  state. A schedule names, step by step, the thread that moves next and the clock
  readings of that step; a thread that is not there does not move. A request enters
  the list after its lookup in the map has found nothing. Requests that are refused
  for their key's syntax or that find their key in the map are not in the list: they
  leave the shared state as it is (lemma \<open>hit_never_writes\<close> below).
\<close>

fun poolStep ::
  "(bytes \<Rightarrow> bytes) \<Rightarrow> nat \<times> int \<times> int \<Rightarrow> 'h Potency \<times> thread list
     \<Rightarrow> ('h Potency \<times> thread list) option" where
  "poolStep H (i, now1, now2) (p, ts) =
     (if i < length ts
      then (case step H now1 now2 p (ts ! i) of
              None \<Rightarrow> None
            | Some (p', t') \<Rightarrow> Some (p', ts[i := t']))
      else Some (p, ts))"

fun poolRun ::
  "(bytes \<Rightarrow> bytes) \<Rightarrow> (nat \<times> int \<times> int) list \<Rightarrow> 'h Potency \<times> thread list
     \<Rightarrow> ('h Potency \<times> thread list) option" where
  "poolRun H [] c = Some c"
| "poolRun H (s # ss) c = (case poolStep H s c of None \<Rightarrow> None | Some c' \<Rightarrow> poolRun H ss c')"

text \<open>
  The key a thread has locked and not yet unlocked: from the return of \<open>lockKey\<close> to
  the deferred \<open>unlockKey\<close>, the call of the handler and of \<open>write\<close> between them.
\<close>

fun holding :: "thread \<Rightarrow> string option" where
  "holding (AtLock w r k) = None"
| "holding (AtHandler w r k) = Some k"
| "holding (AtWrite w b k save) = Some k"
| "holding (AtUnlock w b k rt) = Some k"
| "holding (Finished rt w b) = None"

text \<open>
  A result that a thread has assembled and not yet written has no \<open>newer\<close> link, as
  the struct literal of \<open>serveHTTP\<close> leaves it.
\<close>

fun threadOK :: "thread \<Rightarrow> bool" where
  "threadOK (AtLock w r k) = True"
| "threadOK (AtHandler w r k) = True"
| "threadOK (AtWrite w b k save) = (newer save = None)"
| "threadOK (AtUnlock w b k rt) = True"
| "threadOK (Finished rt w b) = True"

text \<open>
  Every key that a thread holds is in the in-flight set, and no two threads hold the
  same key.
\<close>

definition exclusive :: "'h Potency \<Rightarrow> thread list \<Rightarrow> bool" where
  "exclusive p ts =
     ((\<forall>i<length ts. \<forall>k. holding (ts ! i) = Some k \<longrightarrow> inProgress p k = Some True)
      \<and> (\<forall>i<length ts. \<forall>j<length ts. \<forall>k.
            holding (ts ! i) = Some k \<and> holding (ts ! j) = Some k \<longrightarrow> i = j))"

subsection \<open>Well-formed stores\<close>

text \<open>
  The objects allocated so far are those below \<open>nextAddr\<close>. In a well-formed state
  every \<open>newer\<close> link leads from an object to one allocated after it, and the two
  ends of the chain are allocated objects.
\<close>

definition linksOK :: "'h Potency \<Rightarrow> bool" where
  "linksOK p = (\<forall>a<nextAddr p. \<forall>b. newer (heap p a) = Some b \<longrightarrow> a < b \<and> b < nextAddr p)"

definition chainOK :: "'h Potency \<Rightarrow> bool" where
  "chainOK p = (linksOK p
     \<and> (\<forall>a. cacheOldest p = Some a \<longrightarrow> a < nextAddr p)
     \<and> (\<forall>a. cacheNewest p = Some a \<longrightarrow> a < nextAddr p))"

text \<open>Two states that differ at most in the map and the oldest pointer.\<close>

definition sweepFrame :: "'h Potency \<Rightarrow> 'h Potency \<Rightarrow> bool" where
  "sweepFrame p p' = (p' = p\<lparr>cache := cache p', cacheOldest := cacheOldest p'\<rparr>)"

subsection \<open>What a handler's calls amount to\<close>

text \<open>
  The bytes of all \<open>Write\<close> calls, and the bytes the \<open>Read\<close> calls take from a
  body, both read off the list of calls.
\<close>

fun writtenBody :: "action list \<Rightarrow> bytes" where
  "writtenBody [] = []"
| "writtenBody (CallWrite d # as) = d @ writtenBody as"
| "writtenBody (_ # as) = writtenBody as"

fun bytesRead :: "action list \<Rightarrow> reader \<Rightarrow> bytes" where
  "bytesRead [] b = []"
| "bytesRead (BodyRead n # as) b = fst (fst (srcRead b n)) @ bytesRead as (snd (srcRead b n))"
| "bytesRead (BodyClose # as) b = bytesRead as (srcClose b)"
| "bytesRead (_ # as) b = bytesRead as b"

subsection \<open>Example inputs\<close>

text \<open>
  A handler like the one of the repository's tests: it reads the body, adds a
  response header and writes a value that differs from call to call (here the number
  of calls so far, which is its state).
\<close>

definition countingHandler :: "nat handlerfn" where
  "countingHandler n r =
     (([BodyRead 512, BodyRead 512, HeaderAdd ''X-Response'' ''bar'', CallWrite [of_nat n]],
       Returned), Suc n)"

definition quoted :: "string \<Rightarrow> string" where
  "quoted s = dquote @ s @ dquote"

definition exWriter :: responseWriter where
  "exWriter = \<lparr>hdr = [], wrote = []\<rparr>"

definition exBody :: "bytes \<Rightarrow> reader" where
  "exBody d = \<lparr>pending = [(d, None)], closed = False\<rparr>"

definition exRequest :: "string \<Rightarrow> string \<Rightarrow> bytes \<Rightarrow> request" where
  "exRequest m val d =
     \<lparr>Method = m, URL = ''/'', Header = [(''Idempotency-Key'', [val])], Body = exBody d\<rparr>"

definition exPotency :: "nat Potency" where
  "exPotency = NewPotency countingHandler 0"

text \<open>A handler that makes the given calls and returns.\<close>

definition scriptHandler :: "action list \<Rightarrow> unit handlerfn" where
  "scriptHandler acts u r = ((acts, Returned), u)"

definition test1 :: bytes where
  "test1 = [116, 101, 115, 116, 49]"

definition test2 :: bytes where
  "test2 = [116, 101, 115, 116, 50]"

text \<open>
  The state after \<open>exPotency\<close> has served a \<open>POST\<close> with the key \<open>abc\<close> and the
  body \<open>test1\<close> at time 0, with the identity in the place of SHA-256 (lemma
  \<open>first_request\<close> below), and \<open>exPotency\<close> while a request with that key is
  being served.
\<close>

definition exCached :: "nat Potency" where
  "exCached = \<lparr>handler = countingHandler, hstate = 1, lifetime = 6 * hour,
     heap = (\<lambda>_. zeroResult)(0 :=
        \<lparr>key = ''abc'', method' = ''POST'', url = ''/'',
         requestHeader = [(''Accept'', [[]]), (''Authorization'', [[]])],
         sha256 = test1, statusCode = 200,
         responseHeader = [(''X-Response'', [''bar''])], responseBody = [0],
         added = 0, newer = None\<rparr>),
     nextAddr = 1, cache = [''abc'' \<mapsto> 0],
     cacheOldest = Some 0, cacheNewest = Some 0, inProgress = Map.empty\<rparr>"

definition exBusy :: "nat Potency" where
  "exBusy = exPotency\<lparr>inProgress := [''abc'' \<mapsto> True]\<rparr>"


definition exFailing :: "unit Potency" where
  "exFailing =
     NewPotency (scriptHandler [BodyRead 512, BodyRead 512, CallWriteHeader 500, CallWrite [7]]) ()"


text \<open>
  A handler that reads the body and answers with status 500, counting its calls, and
  the state after a new dispatcher with this handler has served a \<open>POST\<close> with the
  key \<open>abc\<close> and the body \<open>test1\<close> at time 0 (lemma \<open>first_failing_request\<close>
  below).
\<close>

definition errorHandler :: "nat handlerfn" where
  "errorHandler n r =
     (([BodyRead 512, BodyRead 512, CallWriteHeader 500, CallWrite [7]], Returned), Suc n)"

definition exCachedFailing :: "nat Potency" where
  "exCachedFailing = \<lparr>handler = errorHandler, hstate = 1, lifetime = 6 * hour,
     heap = (\<lambda>_. zeroResult)(0 :=
        \<lparr>key = ''abc'', method' = ''POST'', url = ''/'',
         requestHeader = [(''Accept'', [[]]), (''Authorization'', [[]])],
         sha256 = test1, statusCode = 500,
         responseHeader = [], responseBody = [7],
         added = 0, newer = None\<rparr>),
     nextAddr = 1, cache = [''abc'' \<mapsto> 0],
     cacheOldest = Some 0, cacheNewest = Some 0, inProgress = Map.empty\<rparr>"

text \<open>
  A \<open>GET\<close> with the key \<open>k\<close> and an empty body, and a stand-in for
  \<open>jsrest.WriteError\<close> that only sets the status.
\<close>

definition exEmpty :: request where
  "exEmpty = \<lparr>Method = ''GET'', URL = ''/'', Header = [(''Idempotency-Key'', [quoted ''k''])],
      Body = \<lparr>pending = [], closed = False\<rparr>\<rparr>"

definition exWriteError :: "responseWriter \<Rightarrow> error \<Rightarrow> responseWriter" where
  "exWriteError w e = WriteHeader_dest w (case e of ErrConflict _ \<Rightarrow> 409 | _ \<Rightarrow> 400)"

section \<open>Key validation\<close>

lemma checkHeaders_err:
  "checkHeaders hs sh rh = Some e \<Longrightarrow> \<exists>h v. e = ErrHeaderMismatch h v"
  by (induction hs) (auto split: if_splits)

text \<open>The test of \<open>serveHTTP\<close> on the header value, in the words of the specification.\<close>

lemma token_syntax:
  "(length val < 2 \<or> \<not> HasPrefix val dquote \<or> \<not> HasSuffix val dquote)
     = (\<not> (2 \<le> length val \<and> hd val = CHR 0x22 \<and> last val = CHR 0x22))"
proof (cases "2 \<le> length val")
  case False
  then show ?thesis by auto
next
  case True
  then have ne: "val \<noteq> []" by auto
  have p: "HasPrefix val dquote = (hd val = CHR 0x22)"
    using ne by (cases val) (auto simp: HasPrefix_def dquote_def)
  have "drop (length val - Suc 0) val = [last val]"
    using ne by (induction val rule: rev_induct) auto
  then have s: "HasSuffix val dquote = (last val = CHR 0x22)"
    using True by (auto simp: HasSuffix_def dquote_def)
  show ?thesis using True p s by auto
qed

text \<open>
  The run of a thread written out: \<open>serveHTTP\<close> from the call of the handler, and
  from the call of \<open>lockKey\<close>.
\<close>

lemma serveHTTP_exec_eq:
  "serveHTTP_exec H p w r k now1 now2 =
    (let reqHdr = fold (\<lambda>h rh. Set rh h (Get (Header r) h)) criticalHeaders [];
         bi = newBodyIntercept (Body r);
         rwi = newResponseWriterIntercept w
     in case handler p (hstate p) r of ((acts, out), hs') \<Rightarrow>
        (case runTapped acts (rwi, bi) of (rwi', bi') \<Rightarrow>
          (case out of
              Panicked \<Rightarrow> Some (GoPanic, unlockKey (p\<lparr>hstate := hs'\<rparr>) k, dest rwi', source bi')
            | Returned \<Rightarrow>
               (let sr = nextAddr p;
                    save = \<lparr>key = k, method' = Method r, url = URL r, requestHeader = reqHdr,
                             sha256 = hashSum H (bi_sha256 bi'),
                             statusCode = rwi_statusCode rwi', responseHeader = Header_rwi rwi',
                             responseBody = buf rwi', added = 0, newer = None\<rparr>;
                    p1 = p\<lparr>hstate := hs', heap := (heap p)(sr := save), nextAddr := Suc sr\<rparr>
                in case write' p1 sr now1 now2 of
                     None \<Rightarrow> None
                   | Some p2 \<Rightarrow> Some (ReturnNil, unlockKey p2 k, dest rwi', source bi')))))"
  by (auto simp: serveHTTP_exec_def Let_def split: prod.splits outcome.splits option.splits)

lemma serveHTTP_miss_eq:
  "serveHTTP_miss H p w r k now1 now2 =
    (case lockKey p k of
        Inl _ \<Rightarrow> Some (ReturnErr (ErrConflict k), p, w, Body r)
      | Inr p1 \<Rightarrow> serveHTTP_exec H p1 w r k now1 now2)"
  by (auto simp: serveHTTP_miss_def serveHTTP_exec_def split: sum.splits option.splits)

lemma serveHTTP_hit_not_invalid:
  "fst (serveHTTP_hit H p w r saved) \<noteq> ReturnErr (ErrInvalidKey e)"
  by (auto simp: serveHTTP_hit_def split: option.splits prod.splits sum.splits
      dest: checkHeaders_err)

lemma serveHTTP_exec_not_invalid:
  "serveHTTP_exec H p w r k n1 n2 = Some x \<Longrightarrow> fst x \<noteq> ReturnErr (ErrInvalidKey e)"
  by (auto simp: serveHTTP_exec_eq Let_def split: option.splits prod.splits outcome.splits)

lemma serveHTTP_miss_not_invalid:
  "serveHTTP_miss H p w r k n1 n2 = Some x \<Longrightarrow> fst x \<noteq> ReturnErr (ErrInvalidKey e)"
  by (auto simp: serveHTTP_miss_eq split: sum.splits dest: serveHTTP_exec_not_invalid)

text \<open>
  Claim C4. \<open>serveHTTP\<close> is only called with a non-empty header value \<open>val\<close>; the
  statement holds for every \<open>val\<close>. The call returns an \<open>InvalidKey\<close> error exactly
  when \<open>val\<close> is not at least two characters long with a double quote first and last.
  When it does, the error carries \<open>val\<close> and nothing else has happened: the
  dispatcher's state (cache, in-flight set and the handler's own state, so the handler
  was not called) and the writer are as before and the body is unread.
\<close>

theorem invalid_key_iff_bad_syntax:
  "((\<exists>e p' w' b'. serveHTTP H p w r val n1 n2 = Some (ReturnErr (ErrInvalidKey e), p', w', b'))
      = (\<not> (2 \<le> length val \<and> hd val = CHR 0x22 \<and> last val = CHR 0x22)))
   \<and> (\<not> (2 \<le> length val \<and> hd val = CHR 0x22 \<and> last val = CHR 0x22)
        \<longrightarrow> serveHTTP H p w r val n1 n2 = Some (ReturnErr (ErrInvalidKey val), p, w, Body r))"
proof (cases "length val < 2 \<or> \<not> HasPrefix val dquote \<or> \<not> HasSuffix val dquote")
  case True
  then have "serveHTTP H p w r val n1 n2 = Some (ReturnErr (ErrInvalidKey val), p, w, Body r)"
    by (simp add: serveHTTP_def)
  with True show ?thesis using token_syntax [of val] by auto
next
  case False
  have "\<not> (\<exists>e p' w' b'.
      serveHTTP H p w r val n1 n2 = Some (ReturnErr (ErrInvalidKey e), p', w', b'))"
  proof
    assume "\<exists>e p' w' b'.
      serveHTTP H p w r val n1 n2 = Some (ReturnErr (ErrInvalidKey e), p', w', b')"
    then obtain e p' w' b' where
      s: "serveHTTP H p w r val n1 n2 = Some (ReturnErr (ErrInvalidKey e), p', w', b')"
      by blast
    show False
    proof (cases "read p (substr val 1 (length val - 1))")
      case None
      with s False have "serveHTTP_miss H p w r (substr val 1 (length val - 1)) n1 n2
          = Some (ReturnErr (ErrInvalidKey e), p', w', b')"
        by (simp add: serveHTTP_def Let_def)
      from serveHTTP_miss_not_invalid [OF this, of e] show False by simp
    next
      case (Some a)
      with s False have
        "serveHTTP_hit H p w r (heap p a) = (ReturnErr (ErrInvalidKey e), p', w', b')"
        by (simp add: serveHTTP_def Let_def)
      with serveHTTP_hit_not_invalid [of H p w r "heap p a" e] show False by simp
    qed
  qed
  with False show ?thesis using token_syntax [of val] by auto
qed

text \<open>
  The value \<open>abc\<close> has no quotes and is refused with nothing changed; the value made
  of two quotes is accepted, and its bare key is the empty string.
\<close>

theorem invalid_key_iff_bad_syntax_witness:
  "serveHTTP id exPotency exWriter (exRequest ''POST'' ''abc'' []) ''abc'' 0 0
      = Some (ReturnErr (ErrInvalidKey ''abc''), exPotency, exWriter,
              Body (exRequest ''POST'' ''abc'' []))
   \<and> (\<nexists>e p' w' b'.
        serveHTTP id exPotency exWriter (exRequest ''POST'' (quoted []) []) (quoted []) 0 0
          = Some (ReturnErr (ErrInvalidKey e), p', w', b'))
   \<and> substr (quoted []) 1 (length (quoted []) - 1) = []"
  using invalid_key_iff_bad_syntax
    [of id exPotency exWriter "exRequest ''POST'' ''abc'' []" "''abc''" 0 0]
    invalid_key_iff_bad_syntax
    [of id exPotency exWriter "exRequest ''POST'' (quoted []) []" "quoted []" 0 0]
  by (simp add: quoted_def dquote_def substr_def)

section \<open>The taps\<close>

text \<open>
  Claim C9. For every source and every sequence of \<open>Read\<close> calls through the
  tap, whatever the buffer lengths: each call returns what the source's \<open>Read\<close>
  returned (the same bytes, so the same count, and the same error), the source is left
  as the bare calls would leave it, and the hash has been fed, after the bytes it
  held before, exactly the bytes the calls returned, in order. The digest \<open>hashSum\<close>
  of a fresh tap is therefore SHA-256 of their concatenation. The statement covers
  every prefix of a sequence of reads, so each read is digested when it happens.
\<close>

theorem body_tap_digests_bytes_read:
  "fst (Reads_bi rd bi ns) = fst (Reads_src rd (source bi) ns)
   \<and> source (snd (Reads_bi rd bi ns)) = snd (Reads_src rd (source bi) ns)
   \<and> bi_sha256 (snd (Reads_bi rd bi ns))
       = bi_sha256 bi @ concat (map fst (fst (Reads_bi rd bi ns)))
   \<and> hashSum H (bi_sha256 (snd (Reads_bi rd (newBodyIntercept src) ns)))
       = H (concat (map fst (fst (Reads_src rd src ns))))"
proof -
  have main: "fst (Reads_bi rd b ns) = fst (Reads_src rd (source b) ns)
      \<and> source (snd (Reads_bi rd b ns)) = snd (Reads_src rd (source b) ns)
      \<and> bi_sha256 (snd (Reads_bi rd b ns))
          = bi_sha256 b @ concat (map fst (fst (Reads_bi rd b ns)))" for b
  proof (induction ns arbitrary: b)
    case Nil
    show ?case by simp
  next
    case (Cons n ns)
    obtain d e s' where r: "rd (source b) n = ((d, e), s')"
      by (metis prod.exhaust)
    let ?b = "b\<lparr>source := s', bi_sha256 := bi_sha256 b @ d\<rparr>"
    have rb: "Read_bi rd b n = ((d, e), ?b)"
      by (simp add: Read_bi_def r)
    from Cons.IH [of ?b] show ?case
      by (auto simp: rb r split: prod.splits)
  qed
  from main [of bi] main [of "newBodyIntercept src"] show ?thesis
    by (simp add: hashSum_def newBodyIntercept_def)
qed

lemma run_status:
  "rwi_statusCode (fst (fold tapStep acts (rwi, bi)))
     = (case lastWriteHeader acts of None \<Rightarrow> rwi_statusCode rwi | Some c \<Rightarrow> c)"
proof (induction acts arbitrary: rwi bi)
  case Nil
  show ?case by simp
next
  case (Cons a acts)
  obtain rwi' bi' where s: "tapStep a (rwi, bi) = (rwi', bi')"
    by (metis prod.exhaust)
  have st: "rwi_statusCode rwi' = (case a of CallWriteHeader c \<Rightarrow> c | _ \<Rightarrow> rwi_statusCode rwi)"
    using s by (cases a) (auto simp: WriteHeader_rwi_def Write_rwi_def)
  show ?case
    using Cons.IH [of rwi' bi'] st by (simp add: s split: option.splits action.splits)
qed

text \<open>
  Claim C2, as amended. For every sequence of calls on a fresh Response Tap, the
  status code it holds is the one of the most recent call of \<open>WriteHeader\<close>, and
  200 if \<open>WriteHeader\<close> was never called. (With a single call of \<open>WriteHeader\<close> the
  most recent one is the first.)
\<close>

theorem tap_records_last_status:
  "rwi_statusCode (fst (runTapped acts (newResponseWriterIntercept w, bi)))
     = (case lastWriteHeader acts of None \<Rightarrow> 200 | Some c \<Rightarrow> c)"
  by (simp add: runTapped_def run_status newResponseWriterIntercept_def StatusOK_def
      split: option.splits)

text \<open>
  Claim C2 as stated fails: after \<open>WriteHeader(201)\<close> and then \<open>WriteHeader(500)\<close>
  the tap holds 500, not the first code 201.
\<close>

theorem tap_records_first_status_counterexample:
  "rwi_statusCode
     (WriteHeader_rwi (WriteHeader_rwi (newResponseWriterIntercept exWriter) 201) 500) \<noteq> 201"
  by (simp add: WriteHeader_rwi_def newResponseWriterIntercept_def)

section \<open>The expiry sweep\<close>

text \<open>
  On a well-formed store the loop of \<open>removeExpired\<close> returns. It changes nothing but
  the map and the oldest pointer, it only removes keys from the map, and it leaves
  alone a key that no expired object carries.
\<close>

lemma int64_id: "- (2 ^ 63) \<le> x \<Longrightarrow> x < 2 ^ 63 \<Longrightarrow> int64 x = x"
  by (simp add: int64_def)

text \<open>
  For every lifetime but the least \<open>int64\<close> the cutoff lies the lifetime before the
  clock reading. The negation of the least \<open>int64\<close> wraps to itself: the cutoff then
  lies in the distant past and nothing is expired.
\<close>

lemma cutoff_plain:
  "- (2 ^ 63) < lifetime p \<Longrightarrow> lifetime p < 2 ^ 63 \<Longrightarrow> cutoff p now = now - lifetime p"
  by (simp add: cutoff_def int64_id)

lemma cutoff_least_lifetime:
  "lifetime p = - (2 ^ 63) \<Longrightarrow> cutoff p now = now - 2 ^ 63"
  by (simp add: cutoff_def int64_def)

lemma sweepFrame_refl: "sweepFrame p p"
  by (simp add: sweepFrame_def)

lemma sweepFrame_step:
  "sweepFrame (p\<lparr>cache := c, cacheOldest := x\<rparr>) p' \<Longrightarrow> sweepFrame p p'"
  by (simp add: sweepFrame_def)


lemma loop_None: "removeExpired_loop c None p = Some p"
  by (subst removeExpired_loop.simps) simp

lemma loop_Some:
  "removeExpired_loop c (Some a) p =
     (if added (heap p a) < c
      then removeExpired_loop c (newer (heap p a))
             (p\<lparr>cache := (cache p)(key (heap p a) := None), cacheOldest := Some a\<rparr>)
      else Some p)"
  by (subst removeExpired_loop.simps) simp

lemma sweep_returns:
  fixes p :: "'h Potency"
  assumes "linksOK p" and "\<forall>a. iter = Some a \<longrightarrow> a < nextAddr p"
  shows "\<exists>p'. removeExpired_loop c iter p = Some p' \<and> sweepFrame p p'
           \<and> (\<forall>k. cache p' k = cache p k \<or> cache p' k = None)
           \<and> (\<forall>k. (\<forall>a<nextAddr p. key (heap p a) = k \<longrightarrow> \<not> added (heap p a) < c)
                  \<longrightarrow> cache p' k = cache p k)
           \<and> (\<forall>a. cacheOldest p' = Some a \<longrightarrow> a < nextAddr p \<or> cacheOldest p = Some a)"
  using assms
proof (induction "nextAddr p - the iter" arbitrary: iter p rule: less_induct)
  case less
  show ?case
  proof (cases iter)
    case None
    then show ?thesis
      by (simp add: loop_None sweepFrame_refl)
  next
    case (Some a)
    with less.prems have a: "a < nextAddr p" by simp
    show ?thesis
    proof (cases "added (heap p a) < c")
      case False
      with Some show ?thesis
        by (simp add: loop_Some sweepFrame_refl)
    next
      case True
      let ?q = "p\<lparr>cache := (cache p)(key (heap p a) := None), cacheOldest := Some a\<rparr>"
      let ?it = "newer (heap p a)"
      have unf: "removeExpired_loop c iter p = removeExpired_loop c ?it ?q"
        using Some True by (simp add: loop_Some)
      have "linksOK ?q = linksOK p" by (simp add: linksOK_def)
      with less.prems(1) have lq: "linksOK ?q" by simp
      have lk: "\<forall>b. ?it = Some b \<longrightarrow> a < b \<and> b < nextAddr p"
        using less.prems(1) a unfolding linksOK_def by blast
      then have itq: "\<forall>b. ?it = Some b \<longrightarrow> b < nextAddr ?q"
        by simp
      show ?thesis
      proof (cases ?it)
        case None
        then have "removeExpired_loop c iter p = Some ?q"
          using unf by (simp add: loop_None)
        then show ?thesis
          using a True by (auto simp: sweepFrame_def)
      next
        case it: (Some b)
        with lk have ab: "a < b" "b < nextAddr p"
          by simp_all
        then have m: "nextAddr ?q - the ?it < nextAddr p - the iter"
          using Some it by simp
        from less.hyps [OF m lq itq] obtain p' where
          r: "removeExpired_loop c ?it ?q = Some p'" and f: "sweepFrame ?q p'"
          and c1: "\<forall>k. cache p' k = cache ?q k \<or> cache p' k = None"
          and c2: "\<forall>k. (\<forall>a<nextAddr ?q. key (heap ?q a) = k \<longrightarrow> \<not> added (heap ?q a) < c)
                  \<longrightarrow> cache p' k = cache ?q k"
          and o: "\<forall>x. cacheOldest p' = Some x \<longrightarrow> x < nextAddr ?q \<or> cacheOldest ?q = Some x"
          by blast
        have "sweepFrame p p'" using f by (rule sweepFrame_step)
        moreover have "\<forall>k. cache p' k = cache p k \<or> cache p' k = None"
        proof
          fix k
          have "cache p' k = cache ?q k \<or> cache p' k = None" by (rule c1 [THEN spec])
          then show "cache p' k = cache p k \<or> cache p' k = None"
            by (cases "k = key (heap p a)") auto
        qed
        moreover have "\<forall>k. (\<forall>a<nextAddr p. key (heap p a) = k \<longrightarrow> \<not> added (heap p a) < c)
                  \<longrightarrow> cache p' k = cache p k"
        proof (intro allI impI)
          fix k
          assume k: "\<forall>a<nextAddr p. key (heap p a) = k \<longrightarrow> \<not> added (heap p a) < c"
          with a True have ne: "k \<noteq> key (heap p a)" by auto
          from k have "\<forall>a<nextAddr ?q. key (heap ?q a) = k \<longrightarrow> \<not> added (heap ?q a) < c"
            by simp
          with c2 [THEN spec, of k] have "cache p' k = cache ?q k" by simp
          with ne show "cache p' k = cache p k" by simp
        qed
        moreover have "\<forall>x. cacheOldest p' = Some x \<longrightarrow> x < nextAddr p \<or> cacheOldest p = Some x"
          using o a by auto
        ultimately show ?thesis using unf r by simp
      qed
    qed
  qed
qed


lemma write_returns:
  fixes p :: "'h Potency"
  assumes ok: "chainOK p" and sr: "sr < nextAddr p" and nw: "newer (heap p sr) = None"
    and nb: "\<forall>n. cacheNewest p = Some n \<longrightarrow> n < sr"
  shows "\<exists>p'. write' p sr n1 n2 = Some p' \<and> chainOK p'
      \<and> nextAddr p' = nextAddr p \<and> cacheNewest p' = Some sr
      \<and> inProgress p' = inProgress p \<and> hstate p' = hstate p \<and> handler p' = handler p
      \<and> lifetime p' = lifetime p
      \<and> heap p' sr = (heap p sr)\<lparr>added := n1\<rparr>
      \<and> (\<forall>a. a \<noteq> sr \<longrightarrow> heap p' a
            = (if cacheNewest p = Some a then (heap p a)\<lparr>newer := Some sr\<rparr> else heap p a))
      \<and> (\<forall>k. cache p' k = ((cache p)(key (heap p sr) \<mapsto> sr)) k \<or> cache p' k = None)
      \<and> ((\<forall>a<nextAddr p. a \<noteq> sr \<and> key (heap p a) = key (heap p sr)
                \<longrightarrow> \<not> added (heap p a) < cutoff p n2)
            \<and> \<not> n1 < cutoff p n2
          \<longrightarrow> cache p' (key (heap p sr)) = Some sr)"
proof -
  define hp where "hp = (heap p)(sr := (heap p sr)\<lparr>added := n1\<rparr>)"
  define hp' where "hp' = (case cacheNewest p of None \<Rightarrow> hp
      | Some n \<Rightarrow> hp(n := (hp n)\<lparr>newer := Some sr\<rparr>))"
  define p5 where "p5 =
    (let p1 = p\<lparr>heap := (heap p)(sr := (heap p sr)\<lparr>added := n1\<rparr>)\<rparr>;
         p2 = p1\<lparr>cache := (cache p1)(key (heap p1 sr) \<mapsto> sr)\<rparr>;
         p3 = (case cacheNewest p2 of
                 None \<Rightarrow> p2
               | Some n \<Rightarrow> p2\<lparr>heap := (heap p2)(n := (heap p2 n)\<lparr>newer := Some sr\<rparr>)\<rparr>);
         p4 = p3\<lparr>cacheNewest := Some sr\<rparr>
     in if cacheOldest p4 = None then p4\<lparr>cacheOldest := Some sr\<rparr> else p4)"
  have w: "write' p sr n1 n2 = removeExpired p5 n2"
    by (simp add: write'_def p5_def Let_def)
  have p5f: "heap p5 = hp'" "nextAddr p5 = nextAddr p" "cacheNewest p5 = Some sr"
    "cache p5 = (cache p)(key (heap p sr) \<mapsto> sr)"
    "cacheOldest p5 = (if cacheOldest p = None then Some sr else cacheOldest p)"
    "inProgress p5 = inProgress p" "hstate p5 = hstate p" "handler p5 = handler p"
    "lifetime p5 = lifetime p"
    by (simp_all add: p5_def Let_def hp'_def hp_def split: option.splits)
  have hsr: "hp' sr = (heap p sr)\<lparr>added := n1\<rparr>"
    using nb by (auto simp: hp'_def hp_def split: option.splits)
  have hoth: "\<And>a. a \<noteq> sr \<Longrightarrow> hp' a
            = (if cacheNewest p = Some a then (heap p a)\<lparr>newer := Some sr\<rparr> else heap p a)"
    by (auto simp: hp'_def hp_def split: option.splits)
  have keys: "\<And>a. key (hp' a) = key (heap p a)"
    by (auto simp: hp'_def hp_def split: option.splits)
  have adds: "\<And>a. a \<noteq> sr \<Longrightarrow> added (hp' a) = added (heap p a)"
    by (auto simp: hp'_def hp_def split: option.splits)
  have cut: "cutoff p5 n2 = cutoff p n2"
    by (simp add: cutoff_def p5f)
  have lp: "\<And>a b. a < nextAddr p \<Longrightarrow> newer (heap p a) = Some b \<Longrightarrow> a < b \<and> b < nextAddr p"
    using ok unfolding chainOK_def linksOK_def by blast
  have l5: "linksOK p5"
    unfolding linksOK_def
  proof (intro allI impI)
    fix a b
    assume a: "a < nextAddr p5" and n: "newer (heap p5 a) = Some b"
    show "a < b \<and> b < nextAddr p5"
    proof (cases "a = sr")
      case True
      with n hsr nw show ?thesis by (simp add: p5f)
    next
      case False
      show ?thesis
      proof (cases "cacheNewest p = Some a")
        case True
        with False hoth [of a] n have "b = sr" by (simp add: p5f)
        with True nb sr show ?thesis by (simp add: p5f)
      next
        case f2: False
        with False hoth [of a] n have "newer (heap p a) = Some b" by (simp add: p5f)
        with lp [of a b] a show ?thesis by (simp add: p5f)
      qed
    qed
  qed
  have o5: "\<forall>a. cacheOldest p5 = Some a \<longrightarrow> a < nextAddr p5"
    using ok sr unfolding chainOK_def by (auto simp: p5f)
  from sweep_returns [OF l5 o5, of "cutoff p5 n2"] obtain p' where
    r: "removeExpired_loop (cutoff p5 n2) (cacheOldest p5) p5 = Some p'"
    and f: "sweepFrame p5 p'"
    and c1: "\<forall>k. cache p' k = cache p5 k \<or> cache p' k = None"
    and c2: "\<forall>k. (\<forall>a<nextAddr p5. key (heap p5 a) = k
                \<longrightarrow> \<not> added (heap p5 a) < cutoff p5 n2)
                  \<longrightarrow> cache p' k = cache p5 k"
    and o: "\<forall>a. cacheOldest p' = Some a \<longrightarrow> a < nextAddr p5 \<or> cacheOldest p5 = Some a"
    by blast
  have eq: "p' = p5\<lparr>cache := cache p', cacheOldest := cacheOldest p'\<rparr>"
    using f by (simp add: sweepFrame_def)
  have fr: "heap p' = hp'" "nextAddr p' = nextAddr p" "cacheNewest p' = Some sr"
    "inProgress p' = inProgress p" "hstate p' = hstate p" "handler p' = handler p"
    "lifetime p' = lifetime p"
    by (subst eq, simp add: p5f)+
  have "write' p sr n1 n2 = Some p'"
    using w r by (simp add: removeExpired_def)
  moreover have "chainOK p'"
  proof -
    have "linksOK p' = linksOK p5"
      by (subst eq) (simp add: linksOK_def)
    moreover have "\<forall>a. cacheOldest p' = Some a \<longrightarrow> a < nextAddr p'"
      using o o5 fr(2) by (auto simp: p5f)
    ultimately show ?thesis
      using l5 fr(2,3) sr by (simp add: chainOK_def)
  qed
  moreover have "\<forall>k. cache p' k = ((cache p)(key (heap p sr) \<mapsto> sr)) k \<or> cache p' k = None"
    using c1 by (simp add: p5f)
  moreover have "(\<forall>a<nextAddr p. a \<noteq> sr \<and> key (heap p a) = key (heap p sr)
                \<longrightarrow> \<not> added (heap p a) < cutoff p n2)
            \<and> \<not> n1 < cutoff p n2
          \<longrightarrow> cache p' (key (heap p sr)) = Some sr"
  proof
    assume h: "(\<forall>a<nextAddr p. a \<noteq> sr \<and> key (heap p a) = key (heap p sr)
                \<longrightarrow> \<not> added (heap p a) < cutoff p n2)
            \<and> \<not> n1 < cutoff p n2"
    have "\<forall>a<nextAddr p5. key (heap p5 a) = key (heap p sr)
                \<longrightarrow> \<not> added (heap p5 a) < cutoff p5 n2"
    proof (intro allI impI)
      fix a assume "a < nextAddr p5" and "key (heap p5 a) = key (heap p sr)"
      then have a: "a < nextAddr p" "key (heap p a) = key (heap p sr)"
        using keys [of a] by (simp_all add: p5f)
      show "\<not> added (heap p5 a) < cutoff p5 n2"
      proof (cases "a = sr")
        case True
        with h hsr show ?thesis by (simp add: p5f cut)
      next
        case False
        with h a have "\<not> added (heap p a) < cutoff p n2" by blast
        with False adds [of a] show ?thesis by (simp add: p5f cut)
      qed
    qed
    with c2 [THEN spec, of "key (heap p sr)"] show "cache p' (key (heap p sr)) = Some sr"
      by (simp add: p5f)
  qed
  ultimately show ?thesis
    using fr hsr hoth by auto
qed

section \<open>The handler between the taps\<close>

text \<open>
  The taps are transparent: the server's writer and the body end as the handler's calls
  would leave them without the taps. The buffer holds the bytes written, the status is
  the one last set, and the hash has been fed the bytes read.
\<close>

lemma tapped_summary:
  "runTapped acts (rwi, bi) = (rwi', bi') \<Longrightarrow>
     runRaw acts (dest rwi, source bi) = (dest rwi', source bi')
     \<and> buf rwi' = buf rwi @ writtenBody acts
     \<and> rwi_statusCode rwi' = (case lastWriteHeader acts of None \<Rightarrow> rwi_statusCode rwi | Some c \<Rightarrow> c)
     \<and> bi_sha256 bi' = bi_sha256 bi @ bytesRead acts (source bi)"
  unfolding runTapped_def runRaw_def
proof (induction acts arbitrary: rwi bi)
  case Nil
  then show ?case by simp
next
  case (Cons a acts)
  obtain rwi1 bi1 where s: "tapStep a (rwi, bi) = (rwi1, bi1)"
    by (metis prod.exhaust)
  with Cons.prems have "fold tapStep acts (rwi1, bi1) = (rwi', bi')" by simp
  from Cons.IH [OF this] have ih:
    "fold rawStep acts (dest rwi1, source bi1) = (dest rwi', source bi')"
    "buf rwi' = buf rwi1 @ writtenBody acts"
    "rwi_statusCode rwi' = (case lastWriteHeader acts of None \<Rightarrow> rwi_statusCode rwi1 | Some c \<Rightarrow> c)"
    "bi_sha256 bi' = bi_sha256 bi1 @ bytesRead acts (source bi1)"
    by simp_all
  show ?case
    using s ih
    by (cases a)
       (auto simp: Read_bi_def Close_bi_def WriteHeader_rwi_def Write_rwi_def Header_rwi_def
          split: prod.splits option.splits)
qed

lemma reqHdr_fold:
  "fold (\<lambda>h rh. Set rh h (Get rh0 h)) criticalHeaders []
     = [(''Accept'', [Get rh0 ''Accept'']), (''Authorization'', [Get rh0 ''Authorization''])]"
  by (simp add: criticalHeaders_def Set_def)

lemma chainOK_alloc:
  assumes "chainOK p" and "newer sv = None"
  shows "chainOK (p\<lparr>hstate := hs, heap := (heap p)(nextAddr p := sv), nextAddr := Suc (nextAddr p)\<rparr>)"
proof -
  have lp: "\<And>a b. a < nextAddr p \<Longrightarrow> newer (heap p a) = Some b \<Longrightarrow> a < b \<and> b < nextAddr p"
    using assms(1) unfolding chainOK_def linksOK_def by blast
  have "linksOK (p\<lparr>hstate := hs, heap := (heap p)(nextAddr p := sv), nextAddr := Suc (nextAddr p)\<rparr>)"
    unfolding linksOK_def
  proof (intro allI impI)
    fix a b
    assume a: "a < nextAddr (p\<lparr>hstate := hs, heap := (heap p)(nextAddr p := sv), nextAddr := Suc (nextAddr p)\<rparr>)"
      and n: "newer (heap (p\<lparr>hstate := hs, heap := (heap p)(nextAddr p := sv), nextAddr := Suc (nextAddr p)\<rparr>) a) = Some b"
    show "a < b \<and> b < nextAddr (p\<lparr>hstate := hs, heap := (heap p)(nextAddr p := sv), nextAddr := Suc (nextAddr p)\<rparr>)"
    proof (cases "a = nextAddr p")
      case True
      with n assms(2) show ?thesis by simp
    next
      case False
      with a n have "a < nextAddr p" "newer (heap p a) = Some b" by simp_all
      from lp [OF this] show ?thesis by simp
    qed
  qed
  moreover have "\<forall>a. cacheOldest p = Some a \<longrightarrow> a < Suc (nextAddr p)"
    using assms(1) unfolding chainOK_def by (meson less_Suc_eq)
  moreover have "\<forall>a. cacheNewest p = Some a \<longrightarrow> a < Suc (nextAddr p)"
    using assms(1) unfolding chainOK_def by (meson less_Suc_eq)
  ultimately show ?thesis by (simp add: chainOK_def)
qed

lemma exec_returned:
  fixes p :: "'h Potency"
  assumes ok: "chainOK p"
    and h: "handler p (hstate p) r = ((acts, Returned), hs')"
  shows "\<exists>p'. serveHTTP_exec H p w r k n1 n2
          = Some (ReturnNil, p', fst (runRaw acts (w, Body r)), snd (runRaw acts (w, Body r)))
      \<and> chainOK p' \<and> nextAddr p' = Suc (nextAddr p) \<and> cacheNewest p' = Some (nextAddr p)
      \<and> inProgress p' = (inProgress p)(k := None) \<and> hstate p' = hs'
      \<and> handler p' = handler p \<and> lifetime p' = lifetime p
      \<and> heap p' (nextAddr p) =
           \<lparr>key = k, method' = Method r, url = URL r,
            requestHeader = [(''Accept'', [Get (Header r) ''Accept'']),
                             (''Authorization'', [Get (Header r) ''Authorization''])],
            sha256 = H (bytesRead acts (Body r)),
            statusCode = (case lastWriteHeader acts of None \<Rightarrow> 200 | Some c \<Rightarrow> c),
            responseHeader = hdr (fst (runRaw acts (w, Body r))),
            responseBody = writtenBody acts, added = n1, newer = None\<rparr>
      \<and> (\<forall>j. cache p' j = ((cache p)(k \<mapsto> nextAddr p)) j \<or> cache p' j = None)
      \<and> ((\<forall>a<nextAddr p. key (heap p a) = k \<longrightarrow> \<not> added (heap p a) < cutoff p n2)
            \<and> \<not> n1 < cutoff p n2
            \<longrightarrow> cache p' k = Some (nextAddr p))"
proof -
  obtain rwi' bi' where
    t: "runTapped acts (newResponseWriterIntercept w, newBodyIntercept (Body r)) = (rwi', bi')"
    by (metis prod.exhaust)
  from tapped_summary [OF t] have ts:
    "runRaw acts (w, Body r) = (dest rwi', source bi')"
    "buf rwi' = writtenBody acts"
    "rwi_statusCode rwi' = (case lastWriteHeader acts of None \<Rightarrow> 200 | Some c \<Rightarrow> c)"
    "bi_sha256 bi' = bytesRead acts (Body r)"
    by (simp_all add: newResponseWriterIntercept_def newBodyIntercept_def StatusOK_def
        split: option.splits)
  have td: "dest rwi' = fst (runRaw acts (w, Body r))"
    "source bi' = snd (runRaw acts (w, Body r))"
    by (simp_all add: ts(1))
  let ?sr = "nextAddr p"
  let ?save = "\<lparr>key = k, method' = Method r, url = URL r,
            requestHeader = [(''Accept'', [Get (Header r) ''Accept'']),
                             (''Authorization'', [Get (Header r) ''Authorization''])],
            sha256 = H (bytesRead acts (Body r)),
            statusCode = (case lastWriteHeader acts of None \<Rightarrow> 200 | Some c \<Rightarrow> c),
            responseHeader = hdr (fst (runRaw acts (w, Body r))),
            responseBody = writtenBody acts, added = 0, newer = None\<rparr>"
  define p1 where "p1 = p\<lparr>hstate := hs', heap := (heap p)(?sr := ?save), nextAddr := Suc ?sr\<rparr>"
  have ex: "serveHTTP_exec H p w r k n1 n2 =
      (case write' p1 ?sr n1 n2 of None \<Rightarrow> None
       | Some p2 \<Rightarrow> Some (ReturnNil, unlockKey p2 k, dest rwi', source bi'))"
    by (simp add: serveHTTP_exec_eq Let_def h t reqHdr_fold ts(2-4) td hashSum_def Header_rwi_def
        p1_def)
  have ok1: "chainOK p1"
    unfolding p1_def by (rule chainOK_alloc [OF ok]) simp
  have nb: "\<forall>n. cacheNewest p1 = Some n \<longrightarrow> n < ?sr"
    using ok unfolding chainOK_def by (simp add: p1_def)
  have f1: "heap p1 ?sr = ?save" "nextAddr p1 = Suc ?sr" "cache p1 = cache p"
    "inProgress p1 = inProgress p" "hstate p1 = hs'" "handler p1 = handler p"
    "lifetime p1 = lifetime p"
    by (simp_all add: p1_def)
  have "?sr < nextAddr p1" "newer (heap p1 ?sr) = None"
    by (simp_all add: f1)
  from write_returns [OF ok1 this nb, of n1 n2] obtain p2 where
    w: "write' p1 ?sr n1 n2 = Some p2" and ok2: "chainOK p2"
    and f2: "nextAddr p2 = nextAddr p1" "cacheNewest p2 = Some ?sr"
      "inProgress p2 = inProgress p1" "hstate p2 = hstate p1" "handler p2 = handler p1"
      "lifetime p2 = lifetime p1" "heap p2 ?sr = (heap p1 ?sr)\<lparr>added := n1\<rparr>"
    and c1: "\<forall>j. cache p2 j = ((cache p1)(key (heap p1 ?sr) \<mapsto> ?sr)) j \<or> cache p2 j = None"
    and c2: "(\<forall>a<nextAddr p1. a \<noteq> ?sr \<and> key (heap p1 a) = key (heap p1 ?sr)
                \<longrightarrow> \<not> added (heap p1 a) < cutoff p1 n2)
            \<and> \<not> n1 < cutoff p1 n2
          \<longrightarrow> cache p2 (key (heap p1 ?sr)) = Some ?sr"
    by blast
  have cut: "cutoff p1 n2 = cutoff p n2"
    by (simp add: cutoff_def f1)
  let ?q = "unlockKey p2 k"
  have ks: "key (heap p1 ?sr) = k" by (simp add: f1)
  have g1: "serveHTTP_exec H p w r k n1 n2
      = Some (ReturnNil, ?q, fst (runRaw acts (w, Body r)), snd (runRaw acts (w, Body r)))"
    using ex w td by simp
  have "chainOK ?q = chainOK p2"
    by (simp add: chainOK_def linksOK_def unlockKey_def)
  with ok2 have g2: "chainOK ?q" by simp
  have g3: "nextAddr ?q = Suc (nextAddr p)" "cacheNewest ?q = Some (nextAddr p)"
    "inProgress ?q = (inProgress p)(k := None)" "hstate ?q = hs'"
    "handler ?q = handler p" "lifetime ?q = lifetime p"
    using f2 f1 by (simp_all add: unlockKey_def)
  have g4: "heap ?q (nextAddr p) = ?save\<lparr>added := n1\<rparr>"
    using f2 f1 by (simp add: unlockKey_def)
  have g5: "\<forall>j. cache ?q j = ((cache p)(k \<mapsto> nextAddr p)) j \<or> cache ?q j = None"
    using c1 ks f1 by (simp add: unlockKey_def)
  have g6: "(\<forall>a<nextAddr p. key (heap p a) = k \<longrightarrow> \<not> added (heap p a) < cutoff p n2)
            \<and> \<not> n1 < cutoff p n2
            \<longrightarrow> cache ?q k = Some (nextAddr p)"
  proof
    assume a: "(\<forall>a<nextAddr p. key (heap p a) = k \<longrightarrow> \<not> added (heap p a) < cutoff p n2)
            \<and> \<not> n1 < cutoff p n2"
    have "\<forall>a<nextAddr p1. a \<noteq> ?sr \<and> key (heap p1 a) = key (heap p1 ?sr)
                \<longrightarrow> \<not> added (heap p1 a) < cutoff p1 n2"
    proof (intro allI impI)
      fix b assume b: "b < nextAddr p1" "b \<noteq> ?sr \<and> key (heap p1 b) = key (heap p1 ?sr)"
      then have "b < nextAddr p" and "heap p1 b = heap p b"
        by (simp_all add: p1_def)
      with a b ks show "\<not> added (heap p1 b) < cutoff p1 n2" by (simp add: cut)
    qed
    moreover from a have "\<not> n1 < cutoff p1 n2" by (simp add: cut)
    ultimately have "cache p2 (key (heap p1 ?sr)) = Some ?sr"
      using c2 by blast
    then show "cache ?q k = Some (nextAddr p)"
      using ks by (simp add: unlockKey_def)
  qed
  have g4': "heap ?q (nextAddr p) =
           \<lparr>key = k, method' = Method r, url = URL r,
            requestHeader = [(''Accept'', [Get (Header r) ''Accept'']),
                             (''Authorization'', [Get (Header r) ''Authorization''])],
            sha256 = H (bytesRead acts (Body r)),
            statusCode = (case lastWriteHeader acts of None \<Rightarrow> 200 | Some c \<Rightarrow> c),
            responseHeader = hdr (fst (runRaw acts (w, Body r))),
            responseBody = writtenBody acts, added = n1, newer = None\<rparr>"
    using g4 by simp
  show ?thesis
    by (intro exI [of _ ?q] conjI g1 g2 g3 g4' g5 g6)
qed

lemma exec_panicked:
  assumes "handler p (hstate p) r = ((acts, Panicked), hs')"
  shows "serveHTTP_exec H p w r k n1 n2
          = Some (GoPanic, unlockKey (p\<lparr>hstate := hs'\<rparr>) k,
                  fst (runRaw acts (w, Body r)), snd (runRaw acts (w, Body r)))"
proof -
  obtain rwi' bi' where
    t: "runTapped acts (newResponseWriterIntercept w, newBodyIntercept (Body r)) = (rwi', bi')"
    by (metis prod.exhaust)
  from tapped_summary [OF t] have "runRaw acts (w, Body r) = (dest rwi', source bi')"
    by (simp add: newResponseWriterIntercept_def newBodyIntercept_def)
  then show ?thesis
    by (simp add: serveHTTP_exec_eq Let_def assms t)
qed

lemma exec_returned_unfold:
  assumes "handler p (hstate p) r = ((acts, Returned), hs')"
    and "runTapped acts (newResponseWriterIntercept w, newBodyIntercept (Body r)) = (rwi', bi')"
  shows "serveHTTP_exec H p w r k n1 n2 =
      (case write' (p\<lparr>hstate := hs',
                       heap := (heap p)(nextAddr p :=
                          \<lparr>key = k, method' = Method r, url = URL r,
                           requestHeader = fold (\<lambda>h rh. Set rh h (Get (Header r) h))
                                             criticalHeaders [],
                           sha256 = hashSum H (bi_sha256 bi'),
                           statusCode = rwi_statusCode rwi',
                           responseHeader = Header_rwi rwi',
                           responseBody = buf rwi', added = 0, newer = None\<rparr>),
                       nextAddr := Suc (nextAddr p)\<rparr>) (nextAddr p) n1 n2 of
         None \<Rightarrow> None
       | Some p2 \<Rightarrow> Some (ReturnNil, unlockKey p2 k, dest rwi', source bi'))"
  by (simp add: serveHTTP_exec_eq Let_def assms)

lemma exec_unlocks:
  assumes "serveHTTP_exec H p w r k n1 n2 = Some (rt, p', w', b')"
  shows "inProgress p' k = None"
proof -
  obtain acts out hs' where h: "handler p (hstate p) r = ((acts, out), hs')"
    by (metis prod.exhaust)
  obtain rwi' bi' where
    t: "runTapped acts (newResponseWriterIntercept w, newBodyIntercept (Body r)) = (rwi', bi')"
    by (metis prod.exhaust)
  show ?thesis
  proof (cases out)
    case Panicked
    with h have "handler p (hstate p) r = ((acts, Panicked), hs')" by simp
    from exec_panicked [OF this, of H w k n1 n2] assms
    have "p' = unlockKey (p\<lparr>hstate := hs'\<rparr>) k" by simp
    then show ?thesis by (simp add: unlockKey_def)
  next
    case Returned
    with h have "handler p (hstate p) r = ((acts, Returned), hs')" by simp
    from assms [unfolded exec_returned_unfold [OF this t, of H k n1 n2]]
    have "\<exists>p2. p' = unlockKey p2 k"
      by (auto split: option.splits)
    then show ?thesis by (auto simp: unlockKey_def)
  qed
qed

lemmas ex_defs = exPotency_def exCached_def exWriter_def exRequest_def exBody_def quoted_def
  dquote_def countingHandler_def NewPotency_def test1_def test2_def hour_def zeroResult_def

lemmas run_defs = serveHTTP_def serveHTTP_hit_def serveHTTP_miss_eq serveHTTP_exec_eq
  read_def lockKey_def unlockKey_def write'_def removeExpired_def cutoff_def int64_def
  loop_None loop_Some
  HasPrefix_def HasSuffix_def substr_def criticalHeaders_def Get_def Set_def Add_def Del_def
  runTapped_def runRaw_def newBodyIntercept_def newResponseWriterIntercept_def
  Read_bi_def Close_bi_def srcRead_def srcClose_def Write_rwi_def WriteHeader_rwi_def
  Header_rwi_def Write_dest_def WriteHeader_dest_def StatusOK_def hashSum_def ioCopy_def Let_def

text \<open>The first request of the specification's scenario leads from \<open>exPotency\<close> to \<open>exCached\<close>.\<close>

lemma first_request:
  "serveHTTP id exPotency exWriter (exRequest ''POST'' (quoted ''abc'') test1) (quoted ''abc'') 0 0
     = Some (ReturnNil, exCached,
             \<lparr>hdr = [(''X-Response'', [''bar''])], wrote = [WroteBody [0]]\<rparr>,
             \<lparr>pending = [], closed = False\<rparr>)"
  by (simp add: ex_defs run_defs fun_eq_iff)

lemma first_failing_request:
  "serveHTTP id (NewPotency errorHandler 0) exWriter (exRequest ''POST'' (quoted ''abc'') test1)
       (quoted ''abc'') 0 0
     = Some (ReturnNil, exCachedFailing,
             \<lparr>hdr = [], wrote = [WroteHeader 500, WroteBody [7]]\<rparr>,
             \<lparr>pending = [], closed = False\<rparr>)"
  by (simp add: ex_defs run_defs exCachedFailing_def errorHandler_def fun_eq_iff)

section \<open>Cache hits\<close>

lemma ret_nilI: "\<forall>e. rt \<noteq> ReturnErr e \<Longrightarrow> rt \<noteq> GoPanic \<Longrightarrow> rt = ReturnNil"
  by (cases rt) auto

lemma hit_unfold:
  assumes "2 \<le> length val \<and> hd val = CHR 0x22 \<and> last val = CHR 0x22"
    and "read p (substr val 1 (length val - 1)) = Some a"
  shows "serveHTTP H p w r val n1 n2 = Some (serveHTTP_hit H p w r (heap p a))"
  using assms token_syntax [of val] by (simp add: serveHTTP_def)

text \<open>
  Claim C5. On a hit (the header value is well-formed and its bare key is in the
  map, at address \<open>a\<close>) the checks come in this order and the first that fails
  decides the result: the method, the URL, the \<open>Accept\<close> header, the
  \<open>Authorization\<close> header (\<open>Get\<close> takes the first value of a header), and last the
  digest of the body, which \<open>io.Copy\<close> has read to its end. Each failure returns its
  own error and leaves the dispatcher's state (the cached entry, the in-flight set, the
  handler's state: the handler is not called) and the writer as they were; the body
  has not been read unless the digest was the check that failed.
\<close>

theorem hit_checks_in_order:
  assumes "2 \<le> length val \<and> hd val = CHR 0x22 \<and> last val = CHR 0x22"
    and "read p (substr val 1 (length val - 1)) = Some a"
  shows "(Method r \<noteq> method' (heap p a) \<longrightarrow>
            serveHTTP H p w r val n1 n2
              = Some (ReturnErr (ErrMethodMismatch (Method r)), p, w, Body r))
    \<and> (Method r = method' (heap p a) \<and> URL r \<noteq> url (heap p a) \<longrightarrow>
            serveHTTP H p w r val n1 n2
              = Some (ReturnErr (ErrURLMismatch (URL r)), p, w, Body r))
    \<and> (Method r = method' (heap p a) \<and> URL r = url (heap p a)
         \<and> Get (requestHeader (heap p a)) ''Accept'' \<noteq> Get (Header r) ''Accept'' \<longrightarrow>
            serveHTTP H p w r val n1 n2
              = Some (ReturnErr (ErrHeaderMismatch ''Accept'' (Get (Header r) ''Accept'')),
                      p, w, Body r))
    \<and> (Method r = method' (heap p a) \<and> URL r = url (heap p a)
         \<and> Get (requestHeader (heap p a)) ''Accept'' = Get (Header r) ''Accept''
         \<and> Get (requestHeader (heap p a)) ''Authorization'' \<noteq> Get (Header r) ''Authorization''
         \<longrightarrow>
            serveHTTP H p w r val n1 n2
              = Some (ReturnErr (ErrHeaderMismatch ''Authorization''
                                   (Get (Header r) ''Authorization'')),
                      p, w, Body r))
    \<and> (\<forall>h b'. Method r = method' (heap p a) \<and> URL r = url (heap p a)
         \<and> Get (requestHeader (heap p a)) ''Accept'' = Get (Header r) ''Accept''
         \<and> Get (requestHeader (heap p a)) ''Authorization'' = Get (Header r) ''Authorization''
         \<and> ioCopy [] (Body r) = (h, None, b') \<and> H h \<noteq> sha256 (heap p a) \<longrightarrow>
            serveHTTP H p w r val n1 n2
              = Some (ReturnErr (ErrBodyMismatch (H h) (sha256 (heap p a))), p, w, b'))"
  unfolding hit_unfold [OF assms]
  by (simp add: serveHTTP_hit_def criticalHeaders_def hashSum_def)

text \<open>
  Against the entry of \<open>exCached\<close> (a \<open>POST\<close> of \<open>/\<close> with the body \<open>test1\<close> and
  neither critical header): another method, another URL, an \<open>Accept\<close> header with two
  values, an \<open>Authorization\<close> header and another body.
\<close>

theorem hit_checks_in_order_witness:
  "serveHTTP id exCached exWriter (exRequest ''GET'' (quoted ''abc'') test1) (quoted ''abc'') 5 5
      = Some (ReturnErr (ErrMethodMismatch ''GET''), exCached, exWriter, exBody test1)
   \<and> serveHTTP id exCached exWriter
        ((exRequest ''POST'' (quoted ''abc'') test1)\<lparr>URL := ''/x''\<rparr>) (quoted ''abc'') 5 5
      = Some (ReturnErr (ErrURLMismatch ''/x''), exCached, exWriter, exBody test1)
   \<and> serveHTTP id exCached exWriter
        ((exRequest ''POST'' (quoted ''abc'') test1)
           \<lparr>Header := [(''Idempotency-Key'', [quoted ''abc'']),
                        (''Accept'', [''text/xml'', ''text/html''])]\<rparr>) (quoted ''abc'') 5 5
      = Some (ReturnErr (ErrHeaderMismatch ''Accept'' ''text/xml''), exCached, exWriter,
              exBody test1)
   \<and> serveHTTP id exCached exWriter
        ((exRequest ''POST'' (quoted ''abc'') test1)
           \<lparr>Header := [(''Idempotency-Key'', [quoted ''abc'']),
                        (''Authorization'', [''Bearer xyz''])]\<rparr>) (quoted ''abc'') 5 5
      = Some (ReturnErr (ErrHeaderMismatch ''Authorization'' ''Bearer xyz''), exCached, exWriter,
              exBody test1)
   \<and> serveHTTP id exCached exWriter (exRequest ''POST'' (quoted ''abc'') test2) (quoted ''abc'') 5 5
      = Some (ReturnErr (ErrBodyMismatch test2 test1), exCached, exWriter,
              \<lparr>pending = [], closed = False\<rparr>)"
proof -
  have v: "2 \<le> length (quoted ''abc'') \<and> hd (quoted ''abc'') = CHR 0x22
      \<and> last (quoted ''abc'') = CHR 0x22"
    by (simp add: quoted_def dquote_def)
  have r: "read exCached (substr (quoted ''abc'') 1 (length (quoted ''abc'') - 1)) = Some 0"
    by (simp add: quoted_def dquote_def substr_def read_def exCached_def)
  have c: "ioCopy [] (exBody test2) = (test2, None, \<lparr>pending = [], closed = False\<rparr>)"
    by (simp add: ioCopy_def exBody_def)
  note t = hit_checks_in_order [OF v r, of _ id exWriter 5 5]
  show ?thesis
    using t [of "exRequest ''GET'' (quoted ''abc'') test1"]
      t [of "(exRequest ''POST'' (quoted ''abc'') test1)\<lparr>URL := ''/x''\<rparr>"]
      t [of "(exRequest ''POST'' (quoted ''abc'') test1)
           \<lparr>Header := [(''Idempotency-Key'', [quoted ''abc'']),
                        (''Accept'', [''text/xml'', ''text/html''])]\<rparr>"]
      t [of "(exRequest ''POST'' (quoted ''abc'') test1)
           \<lparr>Header := [(''Idempotency-Key'', [quoted ''abc'']),
                        (''Authorization'', [''Bearer xyz''])]\<rparr>"]
      t [of "exRequest ''POST'' (quoted ''abc'') test2"] c
    by (simp add: exCached_def exRequest_def Get_def test1_def test2_def)
qed

text \<open>
  When every check passes, the stored status and body are written to the caller's
  writer, the dispatcher's state is as before (nothing is written to the map and the
  handler is not called), and the body has been read to its end. The header loop sets
  each stored header to one value.
\<close>

lemma hit_replays:
  assumes "2 \<le> length val \<and> hd val = CHR 0x22 \<and> last val = CHR 0x22"
    and "read p (substr val 1 (length val - 1)) = Some a"
    and "Method r = method' (heap p a)" and "URL r = url (heap p a)"
    and "Get (requestHeader (heap p a)) ''Accept'' = Get (Header r) ''Accept''"
    and "Get (requestHeader (heap p a)) ''Authorization'' = Get (Header r) ''Authorization''"
    and "ioCopy [] (Body r) = (h, None, b')" and "H h = sha256 (heap p a)"
    and "replayHeaders (responseHeader (heap p a)) (hdr w) = Inr wh"
  shows "serveHTTP H p w r val n1 n2
     = Some (ReturnNil, p,
             \<lparr>hdr = wh, wrote = wrote w @ [WroteHeader (statusCode (heap p a)),
                                           WroteBody (responseBody (heap p a))]\<rparr>,
             b')"
  unfolding hit_unfold [OF assms(1,2)] using assms(3-)
  by (simp add: serveHTTP_hit_def criticalHeaders_def hashSum_def WriteHeader_dest_def
      Write_dest_def)

text \<open>
  For a stored header map in which every header has a value, the loop ends and leaves
  each stored header with its first value alone, other headers as they were.
\<close>

lemma replayHeaders_first_values:
  assumes "\<forall>(k, vs) \<in> set sh. vs \<noteq> []" and "distinct (map fst sh)"
  shows "\<exists>wh. replayHeaders sh wh0 = Inr wh
           \<and> (\<forall>k. map_of wh k = (case map_of sh k of
                                     None \<Rightarrow> map_of wh0 k
                                   | Some vs \<Rightarrow> Some [hd vs]))"
  using assms
proof (induction sh arbitrary: wh0)
  case Nil
  then show ?case by simp
next
  case (Cons e sh)
  obtain k vs where e: "e = (k, vs)" by (cases e)
  with Cons.prems obtain v vs' where vs: "vs = v # vs'" by (cases vs) auto
  from Cons.prems e have p: "\<forall>(k, vs) \<in> set sh. vs \<noteq> []" "distinct (map fst sh)"
    and nk: "k \<notin> fst ` set sh"
    by auto
  from Cons.IH [OF p, of "Set wh0 k v"] obtain wh where
    r: "replayHeaders sh (Set wh0 k v) = Inr wh"
    and m: "\<forall>j. map_of wh j = (case map_of sh j of
                                     None \<Rightarrow> map_of (Set wh0 k v) j
                                   | Some vs \<Rightarrow> Some [hd vs])"
    by blast
  have nk': "map_of sh k = None" using nk by (simp add: map_of_eq_None_iff)
  have "\<forall>j. map_of wh j = (case map_of (e # sh) j of
                                     None \<Rightarrow> map_of wh0 j
                                   | Some vs \<Rightarrow> Some [hd vs])"
  proof
    fix j
    show "map_of wh j = (case map_of (e # sh) j of
                                     None \<Rightarrow> map_of wh0 j
                                   | Some vs \<Rightarrow> Some [hd vs])"
      using m [THEN spec, of j] nk' e vs
      by (cases "j = k") (simp_all add: Set_def update_conv split: option.splits)
  qed
  with r e vs show ?case by simp
qed

text \<open>
  Claim C3 fails on the code. The replay loop sets \<open>vals[0]\<close> for each stored header:
  a header stored with two values is replayed with the first one only, although the
  first response carried both; and a header stored with no value (the handler assigned
  \<open>nil\<close>) makes the replay panic on \<open>vals[0]\<close>.
\<close>

theorem replay_keeps_first_header_value_only:
  "(case serveHTTP id
      (NewPotency (scriptHandler
         [HeaderAdd ''Set-Cookie'' ''a=1'', HeaderAdd ''Set-Cookie'' ''b=2'', CallWrite [1]]) ())
      exWriter exEmpty (quoted ''k'') 0 0 of
      Some (ReturnNil, p1, w1, b1) \<Rightarrow>
        hdr w1 = [(''Set-Cookie'', [''a=1'', ''b=2''])]
        \<and> cache p1 ''k'' = Some 0
        \<and> responseHeader (heap p1 0) = [(''Set-Cookie'', [''a=1'', ''b=2''])]
        \<and> serveHTTP id p1 exWriter exEmpty (quoted ''k'') 1 1
            = Some (ReturnNil, p1,
                    \<lparr>hdr = [(''Set-Cookie'', [''a=1''])],
                     wrote = [WroteHeader 200, WroteBody [1]]\<rparr>,
                    \<lparr>pending = [], closed = False\<rparr>)
    | _ \<Rightarrow> False)
   \<and> (case serveHTTP id
      (NewPotency (scriptHandler [HeaderAssign ''Date'' [], CallWrite [1]]) ())
      exWriter exEmpty (quoted ''k'') 0 0 of
      Some (ReturnNil, p1, w1, b1) \<Rightarrow>
        responseHeader (heap p1 0) = [(''Date'', [])]
        \<and> cache p1 ''k'' = Some 0
        \<and> serveHTTP id p1 exWriter exEmpty (quoted ''k'') 1 1
            = Some (GoPanic, p1, exWriter, \<lparr>pending = [], closed = False\<rparr>)
    | _ \<Rightarrow> False)"
  by (simp add: ex_defs run_defs exEmpty_def scriptHandler_def)

text \<open>The run with the two \<open>Set-Cookie\<close> values, spelt out.\<close>

theorem replay_keeps_first_header_value_only_witness:
  "\<exists>p1 w1 b1.
     serveHTTP id
       (NewPotency (scriptHandler
          [HeaderAdd ''Set-Cookie'' ''a=1'', HeaderAdd ''Set-Cookie'' ''b=2'', CallWrite [1]]) ())
       exWriter exEmpty (quoted ''k'') 0 0 = Some (ReturnNil, p1, w1, b1)
     \<and> hdr w1 = [(''Set-Cookie'', [''a=1'', ''b=2''])]
     \<and> serveHTTP id p1 exWriter exEmpty (quoted ''k'') 1 1
         = Some (ReturnNil, p1,
                 \<lparr>hdr = [(''Set-Cookie'', [''a=1''])],
                  wrote = [WroteHeader 200, WroteBody [1]]\<rparr>,
                 \<lparr>pending = [], closed = False\<rparr>)"
  using replay_keeps_first_header_value_only
  by (auto split: option.splits ret.splits intro!: ret_nilI)

section \<open>Cache misses\<close>

lemma miss_unfold:
  assumes "2 \<le> length val \<and> hd val = CHR 0x22 \<and> last val = CHR 0x22"
    and "k = substr val 1 (length val - 1)"
    and "read p k = None"
  shows "serveHTTP H p w r val n1 n2 = serveHTTP_miss H p w r k n1 n2"
  using assms token_syntax [of val] by (simp add: serveHTTP_def)

lemma chainOK_lock: "chainOK (p\<lparr>inProgress := m\<rparr>) = chainOK p"
  by (simp add: chainOK_def linksOK_def)

lemma chainOK_hstate: "chainOK (p\<lparr>hstate := m\<rparr>) = chainOK p"
  by (simp add: chainOK_def linksOK_def)

subsection \<open>The in-flight set\<close>

text \<open>
  Whenever the loop of \<open>removeExpired\<close> returns, it has changed nothing but the map
  and the oldest pointer; so \<open>write\<close> leaves the in-flight set, the handler and the
  handler's state alone.
\<close>

lemma loop_frame:
  fixes p :: "'h Potency"
  assumes "removeExpired_loop c it p = Some p'"
  shows "sweepFrame p p'"
proof (rule removeExpired_loop.raw_induct [where P = "\<lambda>c it p p'. sweepFrame p p'", OF _ assms])
  fix loop :: "int \<Rightarrow> addr option \<Rightarrow> 'h Potency \<Rightarrow> 'h Potency option"
  fix c it and q q' :: "'h Potency"
  assume IH: "\<And>c it q q'. loop c it q = Some q' \<Longrightarrow> sweepFrame q q'"
    and eq: "(case it of
        None \<Rightarrow> Some q
      | Some a \<Rightarrow>
          if added (heap q a) < c
          then loop c (newer (heap q a))
                 (q\<lparr>cache := (cache q)(key (heap q a) := None), cacheOldest := Some a\<rparr>)
          else Some q) = Some q'"
  show "sweepFrame q q'"
  proof (cases it)
    case None
    with eq show ?thesis by (simp add: sweepFrame_def)
  next
    case (Some a)
    show ?thesis
    proof (cases "added (heap q a) < c")
      case False
      with Some eq show ?thesis by (simp add: sweepFrame_def)
    next
      case True
      with Some eq have "loop c (newer (heap q a))
          (q\<lparr>cache := (cache q)(key (heap q a) := None), cacheOldest := Some a\<rparr>) = Some q'"
        by simp
      from IH [OF this] show ?thesis by (rule sweepFrame_step)
    qed
  qed
qed

lemma write_frame:
  assumes "write' p sr n1 n2 = Some p'"
  shows "inProgress p' = inProgress p \<and> hstate p' = hstate p \<and> handler p' = handler p"
proof -
  define p5 where "p5 =
    (let p1 = p\<lparr>heap := (heap p)(sr := (heap p sr)\<lparr>added := n1\<rparr>)\<rparr>;
         p2 = p1\<lparr>cache := (cache p1)(key (heap p1 sr) \<mapsto> sr)\<rparr>;
         p3 = (case cacheNewest p2 of
                 None \<Rightarrow> p2
               | Some n \<Rightarrow> p2\<lparr>heap := (heap p2)(n := (heap p2 n)\<lparr>newer := Some sr\<rparr>)\<rparr>);
         p4 = p3\<lparr>cacheNewest := Some sr\<rparr>
     in if cacheOldest p4 = None then p4\<lparr>cacheOldest := Some sr\<rparr> else p4)"
  have w: "write' p sr n1 n2 = removeExpired p5 n2"
    by (simp add: write'_def p5_def Let_def)
  have p5f: "inProgress p5 = inProgress p" "hstate p5 = hstate p" "handler p5 = handler p"
    by (simp_all add: p5_def Let_def split: option.splits)
  from assms w have "sweepFrame p5 p'"
    by (simp add: removeExpired_def loop_frame)
  then have "p' = p5\<lparr>cache := cache p', cacheOldest := cacheOldest p'\<rparr>"
    by (simp add: sweepFrame_def)
  then have "inProgress p' = inProgress p5" "hstate p' = hstate p5" "handler p' = handler p5"
    by (metis (no_types) select_convs surjective update_convs)+
  with p5f show ?thesis by simp
qed

text \<open>
  What a step does to the in-flight set: it puts in a key that was not there, which
  the thread holds from then on; or it takes out the key the thread held, which the
  thread holds no longer; or it leaves the set and what the thread holds as they were.
\<close>

lemma step_effect:
  assumes "step H n1 n2 p t = Some (p', t')"
  shows "(holding t = None \<and> (\<exists>k. holding t' = Some k \<and> inProgress p k \<noteq> Some True
              \<and> inProgress p' = (inProgress p)(k \<mapsto> True)))
       \<or> (\<exists>k. holding t = Some k \<and> holding t' = None
              \<and> inProgress p' = (inProgress p)(k := None))
       \<or> (holding t' = holding t \<and> inProgress p' = inProgress p)"
proof (cases t)
  case (AtLock w r k)
  with assms show ?thesis by (auto simp: lockKey_def split: if_splits)
next
  case (AtHandler w r k)
  with assms show ?thesis
    by (auto simp: Let_def split: prod.splits outcome.splits)
next
  case (AtWrite w b k save)
  with assms show ?thesis
    by (auto simp: Let_def split: option.splits dest!: write_frame)
next
  case (AtUnlock w b k rt)
  with assms show ?thesis by (auto simp: unlockKey_def)
next
  case (Finished rt w b)
  with assms show ?thesis by auto
qed

lemma step_keeps_or_unlocks:
  assumes "holding t = Some k" and "step H n1 n2 q t = Some (q', t')"
  shows "(holding t' = Some k \<and> inProgress q' = inProgress q)
       \<or> ((\<exists>rt w' b'. t' = Finished rt w' b') \<and> inProgress q' = (inProgress q)(k := None))"
proof (cases t)
  case (AtLock w r j)
  with assms show ?thesis by simp
next
  case (AtHandler w r j)
  with assms show ?thesis
    by (auto simp: Let_def split: prod.splits outcome.splits)
next
  case (AtWrite w b j save)
  with assms show ?thesis
    by (auto simp: Let_def split: option.splits dest!: write_frame)
next
  case (AtUnlock w b j rt)
  with assms show ?thesis by (auto simp: unlockKey_def)
next
  case (Finished rt w b)
  with assms show ?thesis by simp
qed

lemma step_handler_only:
  assumes "\<forall>w r k. t \<noteq> AtHandler w r k" and "step H n1 n2 q t = Some (q', t')"
  shows "hstate q' = hstate q"
proof (cases t)
  case (AtLock w r j)
  with assms show ?thesis by (auto simp: lockKey_def split: if_splits)
next
  case (AtHandler w r j)
  with assms show ?thesis by simp
next
  case (AtWrite w b j save)
  with assms show ?thesis
    by (auto simp: Let_def split: option.splits dest!: write_frame)
next
  case (AtUnlock w b j rt)
  with assms show ?thesis by (auto simp: unlockKey_def)
next
  case (Finished rt w b)
  with assms show ?thesis by auto
qed

text \<open>Every step of every thread keeps the threads' holds exclusive, and so does every schedule.\<close>

lemma exclusive_step:
  assumes ex: "exclusive p ts" and i: "i < length ts"
    and s: "step H n1 n2 p (ts ! i) = Some (p', t')"
  shows "exclusive p' (ts[i := t'])"
proof -
  have I1: "\<And>j k. j < length ts \<Longrightarrow> holding (ts ! j) = Some k \<Longrightarrow> inProgress p k = Some True"
    using ex unfolding exclusive_def by blast
  have I2: "\<And>j l k. j < length ts \<Longrightarrow> l < length ts \<Longrightarrow> holding (ts ! j) = Some k
       \<Longrightarrow> holding (ts ! l) = Some k \<Longrightarrow> j = l"
    using ex unfolding exclusive_def by blast
  from step_effect [OF s] consider
    (acq) k where "holding (ts ! i) = None" "holding t' = Some k" "inProgress p k \<noteq> Some True"
      "inProgress p' = (inProgress p)(k \<mapsto> True)"
  | (rel) k where "holding (ts ! i) = Some k" "holding t' = None"
      "inProgress p' = (inProgress p)(k := None)"
  | (same) "holding t' = holding (ts ! i)" "inProgress p' = inProgress p"
    by blast
  then show ?thesis
  proof cases
    case acq
    have no: "\<And>j. j < length ts \<Longrightarrow> holding (ts ! j) \<noteq> Some k"
      using I1 acq(3) by blast
    show ?thesis
      unfolding exclusive_def
    proof (intro conjI allI impI)
      fix j k' assume "j < length (ts[i := t'])" "holding (ts[i := t'] ! j) = Some k'"
      then show "inProgress p' k' = Some True"
        using acq I1 [of j k'] i by (cases "j = i") (auto simp: nth_list_update)
    next
      fix j l k' assume "j < length (ts[i := t'])" "l < length (ts[i := t'])"
        "holding (ts[i := t'] ! j) = Some k' \<and> holding (ts[i := t'] ! l) = Some k'"
      then show "j = l"
        using acq I2 [of j l k'] no [of j] no [of l] i
        by (cases "j = i"; cases "l = i") (auto simp: nth_list_update)
    qed
  next
    case rel
    have no: "\<And>j. j < length ts \<Longrightarrow> j \<noteq> i \<Longrightarrow> holding (ts ! j) \<noteq> Some k"
      using I2 [OF _ i _ rel(1)] by blast
    show ?thesis
      unfolding exclusive_def
    proof (intro conjI allI impI)
      fix j k' assume "j < length (ts[i := t'])" "holding (ts[i := t'] ! j) = Some k'"
      then show "inProgress p' k' = Some True"
        using rel I1 [of j k'] no [of j] i by (cases "j = i") (auto simp: nth_list_update)
    next
      fix j l k' assume "j < length (ts[i := t'])" "l < length (ts[i := t'])"
        "holding (ts[i := t'] ! j) = Some k' \<and> holding (ts[i := t'] ! l) = Some k'"
      then show "j = l"
        using rel I2 [of j l k'] i
        by (cases "j = i"; cases "l = i") (auto simp: nth_list_update)
    qed
  next
    case same
    show ?thesis
      unfolding exclusive_def
    proof (intro conjI allI impI)
      fix j k' assume "j < length (ts[i := t'])" "holding (ts[i := t'] ! j) = Some k'"
      then show "inProgress p' k' = Some True"
        using same I1 [of j k'] I1 [of i k'] i by (cases "j = i") (auto simp: nth_list_update)
    next
      fix j l k' assume "j < length (ts[i := t'])" "l < length (ts[i := t'])"
        "holding (ts[i := t'] ! j) = Some k' \<and> holding (ts[i := t'] ! l) = Some k'"
      then show "j = l"
        using same I2 [of j l k'] I2 [of i l k'] I2 [of j i k'] i
        by (cases "j = i"; cases "l = i") (auto simp: nth_list_update)
    qed
  qed
qed

lemma exclusive_run:
  "exclusive p ts \<Longrightarrow> poolRun H sched (p, ts) = Some (p', ts') \<Longrightarrow> exclusive p' ts'"
proof (induction sched arbitrary: p ts)
  case Nil
  then show ?case by simp
next
  case (Cons s ss)
  obtain i n1 n2 where s: "s = (i, n1, n2)" by (cases s)
  show ?case
  proof (cases "i < length ts")
    case False
    with Cons.prems s have "poolRun H ss (p, ts) = Some (p', ts')" by simp
    from Cons.IH [OF Cons.prems(1) this] show ?thesis .
  next
    case True
    with Cons.prems(2) s obtain q t' where
      st: "step H n1 n2 p (ts ! i) = Some (q, t')"
      and r: "poolRun H ss (q, ts[i := t']) = Some (p', ts')"
      by (auto split: option.splits)
    from exclusive_step [OF Cons.prems(1) True st] have "exclusive q (ts[i := t'])" .
    from Cons.IH [OF this r] show ?thesis .
  qed
qed

lemma exclusive_start: "\<forall>t\<in>set ts. holding t = None \<Longrightarrow> exclusive p ts"
  by (simp add: exclusive_def)

text \<open>On a well-formed store every step returns, and so every schedule can be run.\<close>

lemma step_returns:
  fixes p :: "'h Potency"
  assumes ok: "chainOK p" and t: "threadOK t"
  shows "\<exists>p' t'. step H n1 n2 p t = Some (p', t') \<and> chainOK p' \<and> threadOK t'"
proof (cases t)
  case (AtLock w r k)
  with ok show ?thesis by (simp add: lockKey_def chainOK_lock)
next
  case (AtHandler w r k)
  obtain acts out hs' where h: "handler p (hstate p) r = ((acts, out), hs')"
    by (metis prod.exhaust)
  obtain rwi' bi' where
    r: "runTapped acts (newResponseWriterIntercept w, newBodyIntercept (Body r)) = (rwi', bi')"
    by (metis prod.exhaust)
  from ok have "chainOK (p\<lparr>hstate := hs'\<rparr>)" by (simp add: chainOK_hstate)
  with AtHandler h r show ?thesis by (cases out) (simp_all add: Let_def)
next
  case (AtWrite w b k save)
  let ?sr = "nextAddr p"
  define p1 where "p1 = p\<lparr>heap := (heap p)(?sr := save), nextAddr := Suc ?sr\<rparr>"
  from AtWrite t have nw: "newer save = None" by simp
  from chainOK_alloc [OF ok nw, of "hstate p"] have ok1: "chainOK p1"
    by (simp add: p1_def)
  have nb: "\<forall>n. cacheNewest p1 = Some n \<longrightarrow> n < ?sr"
    using ok unfolding chainOK_def by (simp add: p1_def)
  have "?sr < nextAddr p1" "newer (heap p1 ?sr) = None"
    using nw by (simp_all add: p1_def)
  from write_returns [OF ok1 this nb, of n1 n2] obtain p2 where
    "write' p1 ?sr n1 n2 = Some p2" "chainOK p2"
    by blast
  with AtWrite show ?thesis by (simp add: Let_def p1_def)
next
  case (AtUnlock w b k rt)
  with ok show ?thesis by (simp add: unlockKey_def chainOK_lock)
next
  case (Finished rt w b)
  with ok show ?thesis by simp
qed

lemma pool_returns:
  fixes p :: "'h Potency"
  assumes "chainOK p" and "\<forall>t\<in>set ts. threadOK t"
  shows "\<exists>p' ts'. poolRun H sched (p, ts) = Some (p', ts') \<and> chainOK p' \<and> (\<forall>t\<in>set ts'. threadOK t)"
  using assms
proof (induction sched arbitrary: p ts)
  case Nil
  then show ?case by simp
next
  case (Cons s ss)
  obtain i n1 n2 where s: "s = (i, n1, n2)" by (cases s)
  show ?case
  proof (cases "i < length ts")
    case False
    with s Cons.IH [OF Cons.prems] show ?thesis by simp
  next
    case True
    with Cons.prems(2) have "threadOK (ts ! i)" by simp
    from step_returns [OF Cons.prems(1) this, of H n1 n2] obtain q t' where
      st: "step H n1 n2 p (ts ! i) = Some (q, t')" and q: "chainOK q" and t': "threadOK t'"
      by blast
    have "\<forall>t\<in>set (ts[i := t']). threadOK t"
      using Cons.prems(2) t' set_update_subset_insert [of ts i t'] by auto
    from Cons.IH [OF q this] obtain p' ts' where
      "poolRun H ss (q, ts[i := t']) = Some (p', ts')" "chainOK p'" "\<forall>t\<in>set ts'. threadOK t"
      by blast
    with s True st show ?thesis by simp
  qed
qed

text \<open>
  Claim C6. A request with a well-formed value whose bare key \<open>k\<close> is not in the
  map is, from there on, the thread that is about to call \<open>lockKey\<close>.

  If \<open>k\<close> is in the in-flight set, its step ends the request with the \<open>Conflict\<close>
  error: \<open>serveHTTP\<close> returns it with the state (the handler's too: it was not
  called), the writer and the body untouched.

  Otherwise its step puts \<open>k\<close> in the set and leaves the thread about to call the
  handler: the key is registered in the state from which the handler is called. The
  handler is called in that step of a thread and in no other (no other step changes
  the handler's state). From the return of \<open>lockKey\<close> on, every step of the thread
  either leaves the thread holding \<open>k\<close> and the set as it was, or is its last and
  takes \<open>k\<close> out of the set: however \<open>serveHTTP\<close> ends, by returning or by the
  handler's panic, \<open>k\<close> is not in the set afterwards, and on a well-formed store
  \<open>serveHTTP\<close> does end, with the set as before the request less \<open>k\<close>.

  The steps of other requests do not disturb this. Requests that have not yet called
  \<open>lockKey\<close> hold no key; and in whatever order any number of requests take their
  steps, a request that is at the call of the handler, or between it and its
  \<open>unlockKey\<close>, has its key in the set, and it is the only such request with that
  key. On a well-formed store every step returns, so that each of these requests
  comes to its \<open>unlockKey\<close> when it is given its steps.
\<close>

theorem key_held_while_handler_runs:
  fixes p :: "'h Potency"
  assumes v: "2 \<le> length val \<and> hd val = CHR 0x22 \<and> last val = CHR 0x22"
    and k: "k = substr val 1 (length val - 1)"
    and miss: "read p k = None"
  shows "serveHTTP H p w r val n1 n2 = finish H n1 n2 p (AtLock w r k)
    \<and> (inProgress p k = Some True \<longrightarrow>
          step H n1 n2 p (AtLock w r k)
            = Some (p, Finished (ReturnErr (ErrConflict k)) w (Body r))
          \<and> serveHTTP H p w r val n1 n2 = Some (ReturnErr (ErrConflict k), p, w, Body r))
    \<and> (inProgress p k \<noteq> Some True \<longrightarrow>
          step H n1 n2 p (AtLock w r k)
            = Some (p\<lparr>inProgress := (inProgress p)(k \<mapsto> True)\<rparr>, AtHandler w r k)
          \<and> (\<forall>rt p' w' b'. serveHTTP H p w r val n1 n2 = Some (rt, p', w', b')
                \<longrightarrow> inProgress p' k = None)
          \<and> (chainOK p \<longrightarrow>
                (\<exists>rt p' w' b'. serveHTTP H p w r val n1 n2 = Some (rt, p', w', b')
                   \<and> inProgress p' = (inProgress p)(k := None))))
    \<and> (\<forall>(q::'h Potency) t q' t'.
          holding t = Some k \<and> step H n1 n2 q t = Some (q', t') \<longrightarrow>
            (holding t' = Some k \<and> inProgress q' = inProgress q)
            \<or> ((\<exists>rt w' b'. t' = Finished rt w' b')
                \<and> inProgress q' = (inProgress q)(k := None)))
    \<and> (\<forall>(q::'h Potency) t q' t'.
          (\<forall>w r j. t \<noteq> AtHandler w r j) \<and> step H n1 n2 q t = Some (q', t')
            \<longrightarrow> hstate q' = hstate q)
    \<and> (\<forall>ts. (\<forall>t\<in>set ts. holding t = None) \<longrightarrow> exclusive p ts)
    \<and> (\<forall>(q::'h Potency) ts sched q' ts'.
          exclusive q ts \<and> poolRun H sched (q, ts) = Some (q', ts') \<longrightarrow> exclusive q' ts')
    \<and> (\<forall>(q::'h Potency) ts sched.
          chainOK q \<and> (\<forall>t\<in>set ts. threadOK t)
            \<longrightarrow> (\<exists>q' ts'. poolRun H sched (q, ts) = Some (q', ts') \<and> chainOK q'))"
proof -
  let ?p1 = "p\<lparr>inProgress := (inProgress p)(k \<mapsto> True)\<rparr>"
  have s0: "serveHTTP H p w r val n1 n2 = serveHTTP_miss H p w r k n1 n2"
    by (rule miss_unfold [OF v k miss])
  have g1: "serveHTTP H p w r val n1 n2 = finish H n1 n2 p (AtLock w r k)"
    using s0 by (simp add: serveHTTP_miss_def)
  have g2: "inProgress p k = Some True \<longrightarrow>
          step H n1 n2 p (AtLock w r k)
            = Some (p, Finished (ReturnErr (ErrConflict k)) w (Body r))
          \<and> serveHTTP H p w r val n1 n2 = Some (ReturnErr (ErrConflict k), p, w, Body r)"
    unfolding s0 by (simp add: serveHTTP_miss_eq lockKey_def)
  have g3: "inProgress p k \<noteq> Some True \<longrightarrow>
          step H n1 n2 p (AtLock w r k) = Some (?p1, AtHandler w r k)
          \<and> (\<forall>rt p' w' b'. serveHTTP H p w r val n1 n2 = Some (rt, p', w', b')
                \<longrightarrow> inProgress p' k = None)
          \<and> (chainOK p \<longrightarrow>
                (\<exists>rt p' w' b'. serveHTTP H p w r val n1 n2 = Some (rt, p', w', b')
                   \<and> inProgress p' = (inProgress p)(k := None)))"
  proof
    assume free: "inProgress p k \<noteq> Some True"
    have st: "step H n1 n2 p (AtLock w r k) = Some (?p1, AtHandler w r k)"
      using free by (simp add: lockKey_def)
    have s: "serveHTTP H p w r val n1 n2 = serveHTTP_exec H ?p1 w r k n1 n2"
      unfolding s0 using free by (simp add: serveHTTP_miss_eq lockKey_def)
    have u: "\<forall>rt p' w' b'. serveHTTP H p w r val n1 n2 = Some (rt, p', w', b')
                  \<longrightarrow> inProgress p' k = None"
      unfolding s using exec_unlocks by blast
    have t: "chainOK p \<longrightarrow>
         (\<exists>rt p' w' b'. serveHTTP H p w r val n1 n2 = Some (rt, p', w', b')
            \<and> inProgress p' = (inProgress p)(k := None))"
    proof
      assume "chainOK p"
      then have ok1: "chainOK ?p1" by (simp add: chainOK_lock)
      obtain acts out hs' where h: "handler ?p1 (hstate ?p1) r = ((acts, out), hs')"
        by (metis prod.exhaust)
      show "\<exists>rt p' w' b'. serveHTTP H p w r val n1 n2 = Some (rt, p', w', b')
            \<and> inProgress p' = (inProgress p)(k := None)"
      proof (cases out)
        case Returned
        with h have "handler ?p1 (hstate ?p1) r = ((acts, Returned), hs')" by simp
        from exec_returned [OF ok1 this, of H w k n1 n2] obtain p' where
          "serveHTTP_exec H ?p1 w r k n1 n2
            = Some (ReturnNil, p', fst (runRaw acts (w, Body r)), snd (runRaw acts (w, Body r)))"
          "inProgress p' = (inProgress ?p1)(k := None)"
          by blast
        then show ?thesis unfolding s by simp
      next
        case Panicked
        with h have "handler ?p1 (hstate ?p1) r = ((acts, Panicked), hs')" by simp
        from exec_panicked [OF this, of H w k n1 n2] show ?thesis
          unfolding s by (simp add: unlockKey_def)
      qed
    qed
    from st u t show "step H n1 n2 p (AtLock w r k) = Some (?p1, AtHandler w r k)
          \<and> (\<forall>rt p' w' b'. serveHTTP H p w r val n1 n2 = Some (rt, p', w', b')
                \<longrightarrow> inProgress p' k = None)
          \<and> (chainOK p \<longrightarrow>
                (\<exists>rt p' w' b'. serveHTTP H p w r val n1 n2 = Some (rt, p', w', b')
                   \<and> inProgress p' = (inProgress p)(k := None)))"
      by (intro conjI)
  qed
  have g4: "\<forall>(q::'h Potency) t q' t'.
          holding t = Some k \<and> step H n1 n2 q t = Some (q', t') \<longrightarrow>
            (holding t' = Some k \<and> inProgress q' = inProgress q)
            \<or> ((\<exists>rt w' b'. t' = Finished rt w' b')
                \<and> inProgress q' = (inProgress q)(k := None))"
    using step_keeps_or_unlocks by blast
  have g5: "\<forall>(q::'h Potency) t q' t'.
          (\<forall>w r j. t \<noteq> AtHandler w r j) \<and> step H n1 n2 q t = Some (q', t')
            \<longrightarrow> hstate q' = hstate q"
    using step_handler_only by blast
  have g6: "\<forall>ts. (\<forall>t\<in>set ts. holding t = None) \<longrightarrow> exclusive p ts"
    using exclusive_start by blast
  have g7: "\<forall>(q::'h Potency) ts sched q' ts'.
          exclusive q ts \<and> poolRun H sched (q, ts) = Some (q', ts') \<longrightarrow> exclusive q' ts'"
    using exclusive_run by blast
  have g8: "\<forall>(q::'h Potency) ts sched.
          chainOK q \<and> (\<forall>t\<in>set ts. threadOK t)
            \<longrightarrow> (\<exists>q' ts'. poolRun H sched (q, ts) = Some (q', ts') \<and> chainOK q')"
    using pool_returns by blast
  show ?thesis
    by (intro conjI g1 g2 g3 g4 g5 g6 g7 g8)
qed

text \<open>
  The key \<open>abc\<close> in \<open>exBusy\<close>, where it is in flight, and in \<open>exPotency\<close>, where it
  is not. Then two requests with the key \<open>abc\<close> side by side on \<open>exPotency\<close>: the
  first locks the key, the second finds it locked and ends with \<open>Conflict\<close>, the
  first calls the handler and has the key in the set all the while.
\<close>

theorem key_held_while_handler_runs_witness:
  "serveHTTP id exBusy exWriter (exRequest ''POST'' (quoted ''abc'') test1) (quoted ''abc'') 0 0
      = Some (ReturnErr (ErrConflict ''abc''), exBusy, exWriter, exBody test1)
   \<and> step id 0 0 exPotency (AtLock exWriter (exRequest ''POST'' (quoted ''abc'') test1) ''abc'')
      = Some (exPotency\<lparr>inProgress := [''abc'' \<mapsto> True]\<rparr>,
              AtHandler exWriter (exRequest ''POST'' (quoted ''abc'') test1) ''abc'')
   \<and> (\<exists>rt p' w' b'.
         serveHTTP id exPotency exWriter (exRequest ''POST'' (quoted ''abc'') test1)
            (quoted ''abc'') 0 0 = Some (rt, p', w', b')
         \<and> inProgress p' = Map.empty)
   \<and> (\<exists>q ts.
         poolRun id [(0, 0, 0), (1, 0, 0), (0, 0, 0)]
           (exPotency, [AtLock exWriter (exRequest ''POST'' (quoted ''abc'') test1) ''abc'',
                        AtLock exWriter (exRequest ''POST'' (quoted ''abc'') test1) ''abc''])
           = Some (q, ts)
         \<and> exclusive q ts
         \<and> holding (ts ! 0) = Some ''abc''
         \<and> ts ! 1 = Finished (ReturnErr (ErrConflict ''abc'')) exWriter (exBody test1)
         \<and> inProgress q ''abc'' = Some True)
   \<and> (\<exists>q'. step id 0 0 exBusy (AtUnlock exWriter (exBody test1) ''abc'' GoPanic)
              = Some (q', Finished GoPanic exWriter (exBody test1))
         \<and> inProgress q' = Map.empty)"
proof -
  let ?r = "exRequest ''POST'' (quoted ''abc'') test1"
  let ?ts = "[AtLock exWriter ?r ''abc'', AtLock exWriter ?r ''abc'']"
  let ?sched = "[(0, 0, 0), (1, 0, 0), (0, 0, 0)] :: (nat \<times> int \<times> int) list"
  have v: "2 \<le> length (quoted ''abc'') \<and> hd (quoted ''abc'') = CHR 0x22
      \<and> last (quoted ''abc'') = CHR 0x22"
    by (simp add: quoted_def dquote_def)
  have k: "''abc'' = substr (quoted ''abc'') 1 (length (quoted ''abc'') - 1)"
    by (simp add: quoted_def dquote_def substr_def)
  have m1: "read exBusy ''abc'' = None"
    by (simp add: read_def exBusy_def exPotency_def NewPotency_def)
  have m2: "read exPotency ''abc'' = None"
    by (simp add: read_def exPotency_def NewPotency_def)
  have b: "inProgress exBusy ''abc'' = Some True"
    by (simp add: exBusy_def)
  have f: "inProgress exPotency ''abc'' \<noteq> Some True" "inProgress exPotency = Map.empty"
    by (simp_all add: exPotency_def NewPotency_def)
  have ok: "chainOK exPotency"
    by (simp add: chainOK_def linksOK_def exPotency_def NewPotency_def)
  have run: "\<exists>q ts. poolRun id ?sched (exPotency, ?ts) = Some (q, ts)
         \<and> holding (ts ! 0) = Some ''abc''
         \<and> ts ! 1 = Finished (ReturnErr (ErrConflict ''abc'')) exWriter (exBody test1)
         \<and> inProgress q ''abc'' = Some True"
    by (simp add: ex_defs run_defs)
  note t1 = key_held_while_handler_runs [OF v k m1, of id exWriter ?r 0 0]
  note t2 = key_held_while_handler_runs [OF v k m2, of id exWriter ?r 0 0]
  from t1 b have c1: "serveHTTP id exBusy exWriter ?r (quoted ''abc'') 0 0
      = Some (ReturnErr (ErrConflict ''abc''), exBusy, exWriter, exBody test1)"
    by (simp add: exRequest_def)
  from t2 f have c2: "step id 0 0 exPotency (AtLock exWriter ?r ''abc'')
      = Some (exPotency\<lparr>inProgress := [''abc'' \<mapsto> True]\<rparr>, AtHandler exWriter ?r ''abc'')"
    by simp
  from t2 f ok have "\<exists>rt p' w' b'.
         serveHTTP id exPotency exWriter ?r (quoted ''abc'') 0 0 = Some (rt, p', w', b')
         \<and> inProgress p' = (inProgress exPotency)(''abc'' := None)"
    by blast
  then have c3: "\<exists>rt p' w' b'.
         serveHTTP id exPotency exWriter ?r (quoted ''abc'') 0 0 = Some (rt, p', w', b')
         \<and> inProgress p' = Map.empty"
    by (simp add: f)
  from t2 have e0: "exclusive exPotency ?ts"
    by simp
  from run obtain q ts where r: "poolRun id ?sched (exPotency, ?ts) = Some (q, ts)"
    and r2: "holding (ts ! 0) = Some ''abc''"
      "ts ! 1 = Finished (ReturnErr (ErrConflict ''abc'')) exWriter (exBody test1)"
      "inProgress q ''abc'' = Some True"
    by blast
  from t2 e0 r have "exclusive q ts"
    by blast
  with r r2 have c4: "\<exists>q ts. poolRun id ?sched (exPotency, ?ts) = Some (q, ts)
         \<and> exclusive q ts
         \<and> holding (ts ! 0) = Some ''abc''
         \<and> ts ! 1 = Finished (ReturnErr (ErrConflict ''abc'')) exWriter (exBody test1)
         \<and> inProgress q ''abc'' = Some True"
    by blast
  have u: "holding (AtUnlock exWriter (exBody test1) ''abc'' GoPanic) = Some ''abc''"
    "step id 0 0 exBusy (AtUnlock exWriter (exBody test1) ''abc'' GoPanic)
       = Some (unlockKey exBusy ''abc'', Finished GoPanic exWriter (exBody test1))"
    "(inProgress exBusy)(''abc'' := None) = Map.empty"
    by (simp_all add: exBusy_def)
  from t2 u(1,2) have "(holding (Finished GoPanic exWriter (exBody test1)) = Some ''abc''
        \<and> inProgress (unlockKey exBusy ''abc'') = inProgress exBusy)
      \<or> ((\<exists>rt w' b'. Finished GoPanic exWriter (exBody test1) = Finished rt w' b')
        \<and> inProgress (unlockKey exBusy ''abc'') = (inProgress exBusy)(''abc'' := None))"
    by blast
  with u(2,3) have c5: "\<exists>q'. step id 0 0 exBusy (AtUnlock exWriter (exBody test1) ''abc'' GoPanic)
              = Some (q', Finished GoPanic exWriter (exBody test1))
         \<and> inProgress q' = Map.empty"
    by simp
  from c1 c2 c3 c4 c5 show ?thesis
    by (intro conjI)
qed




section \<open>Requests without a key\<close>

text \<open>
  Claim C10. When the \<open>Idempotency-Key\<close> header is present with the empty string as
  its (first) value, \<open>ServeHTTP\<close> does what it does when the header is absent: it calls
  the handler on the writer and the request as they came and does nothing else. The
  handler's calls and outcome are the result, only the handler's own state changes in
  the dispatcher, and \<open>serveHTTP\<close>, which would have returned \<open>InvalidKey\<close> for the
  empty value, is not called.
\<close>

theorem empty_key_value_forwarded:
  assumes "map_of (Header r) ''Idempotency-Key'' = Some ([] # vs)"
  shows "ServeHTTP H WE p w r n1 n2 = Some (callHandler p w r)
     \<and> (\<forall>r'. map_of (Header r') ''Idempotency-Key'' = None
           \<longrightarrow> ServeHTTP H WE p w r' n1 n2 = Some (callHandler p w r'))
     \<and> callHandler p w r
         = (snd (fst (handler p (hstate p) r)), p\<lparr>hstate := snd (handler p (hstate p) r)\<rparr>,
            runRaw (fst (fst (handler p (hstate p) r))) (w, Body r))
     \<and> serveHTTP H p w r [] n1 n2 = Some (ReturnErr (ErrInvalidKey []), p, w, Body r)"
proof -
  have "Get (Header r) ''Idempotency-Key'' = []"
    using assms by (simp add: Get_def)
  then have "ServeHTTP H WE p w r n1 n2 = Some (callHandler p w r)"
    by (simp add: ServeHTTP_def)
  moreover have "\<forall>r'. map_of (Header r') ''Idempotency-Key'' = None
           \<longrightarrow> ServeHTTP H WE p w r' n1 n2 = Some (callHandler p w r')"
    by (simp add: ServeHTTP_def Get_def)
  moreover have "callHandler p w r
         = (snd (fst (handler p (hstate p) r)), p\<lparr>hstate := snd (handler p (hstate p) r)\<rparr>,
            runRaw (fst (fst (handler p (hstate p) r))) (w, Body r))"
    by (simp add: callHandler_def split: prod.splits)
  moreover have "serveHTTP H p w r [] n1 n2 = Some (ReturnErr (ErrInvalidKey []), p, w, Body r)"
    by (simp add: serveHTTP_def)
  ultimately show ?thesis by blast
qed

text \<open>
  A request whose header is present with the empty value: the handler has run on the
  bare writer and its state has advanced, while \<open>serveHTTP\<close> on the same value would
  have refused it.
\<close>

theorem empty_key_value_forwarded_witness:
  "ServeHTTP id exWriteError exPotency exWriter (exRequest ''POST'' [] test1) 0 0
      = Some (Returned, exPotency\<lparr>hstate := 1\<rparr>,
              \<lparr>hdr = [(''X-Response'', [''bar''])], wrote = [WroteBody [0]]\<rparr>,
              \<lparr>pending = [], closed = False\<rparr>)
   \<and> serveHTTP id exPotency exWriter (exRequest ''POST'' [] test1) [] 0 0
      = Some (ReturnErr (ErrInvalidKey []), exPotency, exWriter, exBody test1)"
proof -
  have "map_of (Header (exRequest ''POST'' [] test1)) ''Idempotency-Key'' = Some ([] # [])"
    by (simp add: exRequest_def)
  from empty_key_value_forwarded [OF this, of id exWriteError exPotency exWriter 0 0]
  show ?thesis
    by (simp add: exPotency_def NewPotency_def countingHandler_def exRequest_def exBody_def
        exWriter_def runRaw_def srcRead_def Add_def Write_dest_def)
qed

section \<open>Expiry\<close>

text \<open>
  Claim C1 fails on the code. The loop of \<open>removeExpired\<close> sets \<open>cacheOldest\<close> to the
  entry it has just removed, not to that entry's \<open>newer\<close> link. Three requests, with
  the lifetime of six hours: key \<open>a\<close> at time 0, key \<open>b\<close> seven hours later, key \<open>a\<close>
  again an hour after that. The sweep of the second insert removes the first entry
  and leaves \<open>cacheOldest\<close> on it (address 0), not on the entry of \<open>b\<close> (address 1),
  the first that is not expired. The sweep of the third insert therefore starts at
  the removed entry and deletes its key \<open>a\<close> from the map again, which now removes
  the entry just inserted (address 2), although that entry is not expired.
\<close>

theorem sweep_leaves_oldest_on_removed_entry:
  "(case serveHTTP id exPotency exWriter (exRequest ''POST'' (quoted ''a'') [])
           (quoted ''a'') 0 0 of
      Some (ReturnNil, s1, w1, b1) \<Rightarrow>
        (case serveHTTP id s1 exWriter (exRequest ''POST'' (quoted ''b'') [])
                (quoted ''b'') (7 * hour) (7 * hour) of
           Some (ReturnNil, s2, w2, b2) \<Rightarrow>
             cache s2 ''a'' = None \<and> cache s2 ''b'' = Some 1
             \<and> added (heap s2 0) < 7 * hour - lifetime s2
             \<and> \<not> added (heap s2 1) < 7 * hour - lifetime s2
             \<and> newer (heap s2 0) = Some 1
             \<and> cacheOldest s2 = Some 0
             \<and> (case serveHTTP id s2 exWriter (exRequest ''POST'' (quoted ''a'') [])
                       (quoted ''a'') (8 * hour) (8 * hour) of
                  Some (ReturnNil, s3, w3, b3) \<Rightarrow>
                    key (heap s3 2) = ''a'' \<and> added (heap s3 2) = 8 * hour
                    \<and> \<not> added (heap s3 2) < 8 * hour - lifetime s3
                    \<and> cacheNewest s3 = Some 2
                    \<and> cache s3 ''a'' = None
                | _ \<Rightarrow> False)
         | _ \<Rightarrow> False)
    | _ \<Rightarrow> False)"
  by (simp add: ex_defs run_defs)

text \<open>The three requests, spelt out.\<close>

theorem sweep_leaves_oldest_on_removed_entry_witness:
  "\<exists>s1 w1 b1 s2 w2 b2 s3 w3 b3.
     serveHTTP id exPotency exWriter (exRequest ''POST'' (quoted ''a'') []) (quoted ''a'') 0 0
       = Some (ReturnNil, s1, w1, b1)
     \<and> serveHTTP id s1 exWriter (exRequest ''POST'' (quoted ''b'') [])
           (quoted ''b'') (7 * hour) (7 * hour)
       = Some (ReturnNil, s2, w2, b2)
     \<and> cacheOldest s2 = Some 0 \<and> cache s2 ''a'' = None \<and> cache s2 ''b'' = Some 1
     \<and> serveHTTP id s2 exWriter (exRequest ''POST'' (quoted ''a'') [])
           (quoted ''a'') (8 * hour) (8 * hour)
       = Some (ReturnNil, s3, w3, b3)
     \<and> cache s3 ''a'' = None \<and> added (heap s3 2) = 8 * hour"
  using sweep_leaves_oldest_on_removed_entry
  by (auto split: option.splits ret.splits intro!: ret_nilI)

section \<open>Two requests with one key\<close>

lemma hit_state:
  "serveHTTP_hit H p w r sv = (rt, p', w', b') \<Longrightarrow> p' = p"
  by (auto simp: serveHTTP_hit_def split: if_splits option.splits prod.splits sum.splits)

text \<open>A request whose key is in the map changes nothing in the dispatcher: the hit path never writes.\<close>

lemma hit_never_writes:
  assumes "read p (substr val 1 (length val - 1)) = Some a"
    and "serveHTTP H p w r val n1 n2 = Some (rt, p', w', b')"
  shows "p' = p"
proof (cases "length val < 2 \<or> \<not> HasPrefix val dquote \<or> \<not> HasSuffix val dquote")
  case True
  with assms(2) show ?thesis by (simp add: serveHTTP_def)
next
  case False
  with assms have "serveHTTP_hit H p w r (heap p a) = (rt, p', w', b')"
    by (simp add: serveHTTP_def)
  then show ?thesis by (rule hit_state)
qed

text \<open>
  Claim C8 fails on the code when two requests with the same new key overlap.
  \<open>read\<close> and \<open>lockKey\<close> are separate critical sections and the map is not read
  again once the key is locked. Both requests find the key \<open>k\<close> absent in \<open>exPotency\<close>.
  The first then locks the key, runs the handler, inserts its result (address 0) and
  unlocks. The second goes on from the statement after its lookup: \<open>lockKey\<close>
  succeeds, the handler runs a second time, and \<open>write\<close> stores a second result
  (address 1, another body) under the key \<open>k\<close>, which was in the map.
\<close>

theorem overlapping_requests_overwrite_entry:
  "read exPotency ''k'' = None
   \<and> (case serveHTTP_miss id exPotency exWriter exEmpty ''k'' 0 0 of
        Some (ReturnNil, pA, wA, bA) \<Rightarrow>
          cache pA ''k'' = Some 0 \<and> responseBody (heap pA 0) = [0]
          \<and> inProgress pA ''k'' = None \<and> wrote wA = [WroteBody [0]]
          \<and> (case serveHTTP_miss id pA exWriter exEmpty ''k'' 1 1 of
               Some (ReturnNil, pB, wB, bB) \<Rightarrow>
                 cache pB ''k'' = Some 1 \<and> responseBody (heap pB 1) = [1]
                 \<and> hstate pB = 2 \<and> wrote wB = [WroteBody [1]]
             | _ \<Rightarrow> False)
      | _ \<Rightarrow> False)"
  by (simp add: ex_defs run_defs exEmpty_def)

text \<open>The two requests, spelt out: the entry under \<open>k\<close> is replaced by another.\<close>

theorem overlapping_requests_overwrite_entry_witness:
  "\<exists>pA wA bA pB wB bB.
     serveHTTP_miss id exPotency exWriter exEmpty ''k'' 0 0 = Some (ReturnNil, pA, wA, bA)
     \<and> cache pA ''k'' = Some 0
     \<and> serveHTTP_miss id pA exWriter exEmpty ''k'' 1 1 = Some (ReturnNil, pB, wB, bB)
     \<and> cache pB ''k'' = Some 1
     \<and> responseBody (heap pB 1) \<noteq> responseBody (heap pA 0)"
  using overlapping_requests_overwrite_entry
  by (auto split: option.splits ret.splits intro!: ret_nilI)

text \<open>
  The same two requests as threads side by side, both past their lookup: the first
  takes its four steps, then the second takes its own.
\<close>

lemma overlapping_requests_side_by_side:
  "\<exists>q. poolRun id [(0, 0, 0), (0, 0, 0), (0, 0, 0), (0, 0, 0),
                       (1, 1, 1), (1, 1, 1), (1, 1, 1), (1, 1, 1)]
            (exPotency, [AtLock exWriter exEmpty ''k'', AtLock exWriter exEmpty ''k''])
          = Some (q, [Finished ReturnNil \<lparr>hdr = [(''X-Response'', [''bar''])], wrote = [WroteBody [0]]\<rparr>
                        \<lparr>pending = [], closed = False\<rparr>,
                      Finished ReturnNil \<lparr>hdr = [(''X-Response'', [''bar''])], wrote = [WroteBody [1]]\<rparr>
                        \<lparr>pending = [], closed = False\<rparr>])
        \<and> cache q ''k'' = Some 1 \<and> responseBody (heap q 1) = [1] \<and> hstate q = 2"
  by (simp add: ex_defs run_defs exEmpty_def)

section \<open>The states the dispatcher reaches\<close>

lemma chainOK_NewPotency: "chainOK (NewPotency hnd hs)"
  by (simp add: chainOK_def linksOK_def NewPotency_def)

text \<open>On a well-formed store \<open>serveHTTP\<close> ends, and the store stays well-formed.\<close>

lemma serveHTTP_returns:
  assumes ok: "chainOK p"
  shows "\<exists>rt p' w' b'. serveHTTP H p w r val n1 n2 = Some (rt, p', w', b') \<and> chainOK p'"
proof (cases "length val < 2 \<or> \<not> HasPrefix val dquote \<or> \<not> HasSuffix val dquote")
  case True
  with ok show ?thesis by (simp add: serveHTTP_def)
next
  case False
  let ?k = "substr val 1 (length val - 1)"
  show ?thesis
  proof (cases "read p ?k")
    case (Some a)
    obtain rt p' w' b' where hr: "serveHTTP_hit H p w r (heap p a) = (rt, p', w', b')"
      by (metis prod.exhaust)
    then have "p' = p" by (rule hit_state)
    with hr False Some ok show ?thesis by (simp add: serveHTTP_def)
  next
    case None
    with False have s: "serveHTTP H p w r val n1 n2 = serveHTTP_miss H p w r ?k n1 n2"
      by (simp add: serveHTTP_def)
    show ?thesis
    proof (cases "inProgress p ?k = Some True")
      case True
      with ok show ?thesis unfolding s by (simp add: serveHTTP_miss_eq lockKey_def)
    next
      case free: False
      let ?p1 = "p\<lparr>inProgress := (inProgress p)(?k \<mapsto> True)\<rparr>"
      have s1: "serveHTTP H p w r val n1 n2 = serveHTTP_exec H ?p1 w r ?k n1 n2"
        unfolding s using free by (simp add: serveHTTP_miss_eq lockKey_def)
      have ok1: "chainOK ?p1" using ok by (simp add: chainOK_lock)
      obtain acts out hs' where h: "handler ?p1 (hstate ?p1) r = ((acts, out), hs')"
        by (metis prod.exhaust)
      show ?thesis
      proof (cases out)
        case Returned
        with h have "handler ?p1 (hstate ?p1) r = ((acts, Returned), hs')" by simp
        from exec_returned [OF ok1 this, of H w ?k n1 n2] obtain p' where
          "serveHTTP_exec H ?p1 w r ?k n1 n2
            = Some (ReturnNil, p', fst (runRaw acts (w, Body r)), snd (runRaw acts (w, Body r)))"
          "chainOK p'"
          by blast
        then show ?thesis unfolding s1 by blast
      next
        case Panicked
        with h have "handler ?p1 (hstate ?p1) r = ((acts, Panicked), hs')" by simp
        from exec_panicked [OF this, of H w ?k n1 n2]
        have e: "serveHTTP_exec H ?p1 w r ?k n1 n2
          = Some (GoPanic, unlockKey (?p1\<lparr>hstate := hs'\<rparr>) ?k,
                  fst (runRaw acts (w, Body r)), snd (runRaw acts (w, Body r)))" .
        have "chainOK (unlockKey (?p1\<lparr>hstate := hs'\<rparr>) ?k) = chainOK p"
          by (simp add: chainOK_def linksOK_def unlockKey_def)
        with ok e show ?thesis unfolding s1 by simp
      qed
    qed
  qed
qed

lemma chainOK_ServeHTTP:
  assumes "chainOK p" and "ServeHTTP H WE p w r n1 n2 = Some (out, p', w', b')"
  shows "chainOK p'"
proof (cases "Get (Header r) ''Idempotency-Key'' = []")
  case True
  with assms(2) have "p' = p\<lparr>hstate := snd (handler p (hstate p) r)\<rparr>"
    by (auto simp: ServeHTTP_def callHandler_def split: prod.splits)
  with assms(1) show ?thesis by (simp add: chainOK_hstate)
next
  case False
  from serveHTTP_returns [OF assms(1), of H w r "Get (Header r) ''Idempotency-Key''" n1 n2]
  obtain rt q wq bq where
    s: "serveHTTP H p w r (Get (Header r) ''Idempotency-Key'') n1 n2 = Some (rt, q, wq, bq)"
    and q: "chainOK q"
    by blast
  from assms(2) False s have "p' = q"
    by (cases rt) (simp_all add: ServeHTTP_def)
  with q show ?thesis by simp
qed

end
